theory Spec2Isabelle
  imports Main
begin

section \<open>The environment of \<^verbatim>\<open>aesdsocket\<close>\<close>

text \<open>
  The server of \<^verbatim>\<open>src/server/aesdsocket_backup.c\<close> is a sequence of calls into the
  operating system and the C library. Every call whose outcome the program cannot
  determine (it may fail, transfer fewer bytes than asked, or be interrupted) takes
  its outcome from a script held in the world: the list of the replies the
  environment is going to give, in order. Together with a reply the environment may
  invoke the program's signal handler: an entry of the script lists the signals for
  which the kernel runs the handler before the call returns (a signal that ends the
  process is not a run of the model, and a signal that arrives between two calls is
  seen by the program no earlier than one that arrives during the first of them).
  When the script is exhausted the call never returns, and the value of the model is
  \<open>None\<close>.

  Bytes are \<open>char\<close>s (256 values). Sizes are natural numbers: the casts between
  \<^verbatim>\<open>size_t\<close> and \<^verbatim>\<open>ssize_t\<close> of the source are the identity on every size
  below \<open>2^63\<close>, and no buffer of the program reaches that size.
\<close>

type_synonym bytes = "char list"

definition newline :: char where
  "newline = CHR 0x0A"

datatype errno = EINTR | ENOENT | EOTHER

text \<open>
  A reply is a failure with its \<^verbatim>\<open>errno\<close>, or a success carrying a number: for the
  transfer calls the number of bytes the kernel is ready to move, for the other calls
  it is ignored.
\<close>

datatype reply = Fail errno | Ret nat

fun succeeded :: "reply \<Rightarrow> bool" where
  "succeeded (Ret _) = True"
| "succeeded (Fail _) = False"

datatype fdkind = Append_fd | Read_fd | Client_fd | Server_fd

datatype call =
    Sigaction int | Socket | Setsockopt | Bind | Listen | Accept
  | Recv | Send | Open_append | Open_read | Write | Read | Close fdkind
  | Realloc | Remove

datatype priority = LOG_ERR | LOG_INFO

text \<open>
  The world: the global \<^verbatim>\<open>exit_requested\<close>, the file at \<^verbatim>\<open>DATA_FILE\<close> (\<open>None\<close> when
  it does not exist), the byte streams of the clients that will connect, the bytes the
  connected client has still to deliver (\<open>pending\<close>), the bytes received from it so far
  (\<open>sock_in\<close>, a history variable), the bytes sent to it (\<open>sock_out\<close>), the messages
  given to \<^verbatim>\<open>syslog\<close> (each format string up to its colon, without the file name
  and address arguments), the script, and the history of the calls made with the
  replies they got (\<open>trace\<close>). \<^verbatim>\<open>openlog\<close> and \<^verbatim>\<open>closelog\<close> leave no mark on it.
\<close>

record world =
  exit_requested :: bool
  data_file :: "bytes option"
  clients :: "bytes list"
  pending :: bytes
  sock_in :: bytes
  sock_out :: bytes
  syslog_out :: "(priority \<times> string) list"
  script :: "(int list \<times> reply) list"
  trace :: "(call \<times> reply) list"

definition SIGINT :: int where
  "SIGINT = 2"

definition SIGTERM :: int where
  "SIGTERM = 15"

text \<open>\<^verbatim>\<open>signal_handler\<close>, lines 35-40.\<close>

definition signal_handler :: "int \<Rightarrow> world \<Rightarrow> world" where
  "signal_handler signo w =
     (if signo = SIGINT \<or> signo = SIGTERM then w\<lparr>exit_requested := True\<rparr> else w)"

definition syslog :: "priority \<Rightarrow> string \<Rightarrow> world \<Rightarrow> world" where
  "syslog p m w = w\<lparr>syslog_out := syslog_out w @ [(p, m)]\<rparr>"

text \<open>
  One call into the environment: the next entry of the script is consumed, the call
  and its reply are recorded, and the handler runs for every signal the entry
  delivers before the call returns.
\<close>

definition deliver :: "int list \<Rightarrow> world \<Rightarrow> world" where
  "deliver sigs w = fold signal_handler sigs w"

definition sys :: "call \<Rightarrow> world \<Rightarrow> (reply \<times> world) option" where
  "sys c w =
     (case script w of
        [] \<Rightarrow> None
      | (sigs, r) # rest \<Rightarrow>
          Some (r, deliver sigs (w\<lparr>script := rest, trace := trace w @ [(c, r)]\<rparr>)))"

text \<open>
  The bytes of a file that may not exist, and of a block that may be \<^verbatim>\<open>NULL\<close>.
\<close>

definition contents :: "bytes option \<Rightarrow> bytes" where
  "contents f = (case f of None \<Rightarrow> [] | Some bs \<Rightarrow> bs)"

subsection \<open>What the kernel does on the calls that move data\<close>

text \<open>
  \<^verbatim>\<open>open(DATA_FILE, O_WRONLY | O_CREAT | O_APPEND, 0644)\<close>: on success the file exists.
\<close>

definition open_append :: "world \<Rightarrow> (errno option \<times> world) option" where
  "open_append w =
     (case sys Open_append w of
        None \<Rightarrow> None
      | Some (Fail e, w1) \<Rightarrow> Some (Some e, w1)
      | Some (Ret _, w1) \<Rightarrow> Some (None, w1\<lparr>data_file := Some (contents (data_file w1))\<rparr>))"

text \<open>
  \<^verbatim>\<open>write(fd, buf, count)\<close> on a descriptor opened with \<^verbatim>\<open>O_APPEND\<close>: the kernel
  appends a prefix of \<open>buf\<close> to the file and returns its length.
\<close>

definition write_fd :: "bytes \<Rightarrow> world \<Rightarrow> ((errno + nat) \<times> world) option" where
  "write_fd buf w =
     (case sys Write w of
        None \<Rightarrow> None
      | Some (Fail e, w1) \<Rightarrow> Some (Inl e, w1)
      | Some (Ret k, w1) \<Rightarrow>
          (let n = min k (length buf)
           in Some (Inr n, w1\<lparr>data_file := Some (contents (data_file w1) @ take n buf)\<rparr>)))"

text \<open>\<^verbatim>\<open>open(DATA_FILE, O_RDONLY)\<close>: fails with \<^verbatim>\<open>ENOENT\<close> when the file does not exist.\<close>

definition open_read :: "world \<Rightarrow> (errno option \<times> world) option" where
  "open_read w =
     (case sys Open_read w of
        None \<Rightarrow> None
      | Some (Fail e, w1) \<Rightarrow> Some (Some e, w1)
      | Some (Ret _, w1) \<Rightarrow>
          (if data_file w1 = None then Some (Some ENOENT, w1) else Some (None, w1)))"

text \<open>
  \<^verbatim>\<open>read(fd, buf, count)\<close> at file offset \<open>off\<close>: the bytes read. A successful read of
  a regular file returns no byte only at the end of the file.
\<close>

definition read_fd :: "nat \<Rightarrow> nat \<Rightarrow> world \<Rightarrow> ((errno + bytes) \<times> world) option" where
  "read_fd off count w =
     (case sys Read w of
        None \<Rightarrow> None
      | Some (Fail e, w1) \<Rightarrow> Some (Inl e, w1)
      | Some (Ret k, w1) \<Rightarrow>
          Some (Inr (take (min (max 1 k) count) (drop off (contents (data_file w1)))), w1))"

text \<open>\<^verbatim>\<open>send(client_fd, buf, len, 0)\<close>: a prefix of \<open>buf\<close> goes to the client.\<close>

definition send :: "bytes \<Rightarrow> world \<Rightarrow> ((errno + nat) \<times> world) option" where
  "send buf w =
     (case sys Send w of
        None \<Rightarrow> None
      | Some (Fail e, w1) \<Rightarrow> Some (Inl e, w1)
      | Some (Ret k, w1) \<Rightarrow>
          (let n = min k (length buf)
           in Some (Inr n, w1\<lparr>sock_out := sock_out w1 @ take n buf\<rparr>)))"

text \<open>
  \<^verbatim>\<open>recv(client_fd, buf, count, 0)\<close>: the next bytes of the client's stream. It
  returns no byte only when the client has delivered everything and closed.
\<close>

definition recv :: "nat \<Rightarrow> world \<Rightarrow> ((errno + bytes) \<times> world) option" where
  "recv count w =
     (case sys Recv w of
        None \<Rightarrow> None
      | Some (Fail e, w1) \<Rightarrow> Some (Inl e, w1)
      | Some (Ret k, w1) \<Rightarrow>
          (let chunk = take (min (max 1 k) count) (pending w1)
           in Some (Inr chunk,
                w1\<lparr>pending := drop (length chunk) (pending w1),
                   sock_in := sock_in w1 @ chunk\<rparr>)))"

text \<open>
  \<^verbatim>\<open>remove(DATA_FILE)\<close>: the \<^verbatim>\<open>errno\<close> of the failure, if any. Removing a file that
  does not exist fails with \<^verbatim>\<open>ENOENT\<close>.
\<close>

definition remove_file :: "world \<Rightarrow> (errno option \<times> world) option" where
  "remove_file w =
     (case sys Remove w of
        None \<Rightarrow> None
      | Some (Fail e, w1) \<Rightarrow> Some (Some e, w1)
      | Some (Ret _, w1) \<Rightarrow>
          (if data_file w1 = None then Some (Some ENOENT, w1)
           else Some (None, w1\<lparr>data_file := None\<rparr>)))"

subsection \<open>Every call consumes the script\<close>

lemma syslog_fields [simp]:
  "exit_requested (syslog p m w) = exit_requested w"
  "data_file (syslog p m w) = data_file w"
  "clients (syslog p m w) = clients w"
  "pending (syslog p m w) = pending w"
  "sock_in (syslog p m w) = sock_in w"
  "sock_out (syslog p m w) = sock_out w"
  "syslog_out (syslog p m w) = syslog_out w @ [(p, m)]"
  "script (syslog p m w) = script w"
  "trace (syslog p m w) = trace w"
  by (simp_all add: syslog_def)

definition shutdown_signal :: "int list \<Rightarrow> bool" where
  "shutdown_signal sigs = (\<exists>s \<in> set sigs. s = SIGINT \<or> s = SIGTERM)"

lemma deliver_eq:
  "deliver sigs w = (if shutdown_signal sigs then w\<lparr>exit_requested := True\<rparr> else w)"
  unfolding deliver_def shutdown_signal_def
  by (induction sigs arbitrary: w) (auto simp: signal_handler_def)

lemma sys_Some:
  "sys c w = Some (r, w') \<longleftrightarrow>
     (\<exists>sigs rest. script w = (sigs, r) # rest \<and>
        w' = deliver sigs (w\<lparr>script := rest, trace := trace w @ [(c, r)]\<rparr>))"
  by (auto simp: sys_def split: list.splits)

text \<open>
  \<open>later w w'\<close>: the world \<open>w'\<close> is reached from \<open>w\<close> by calls that consumed a part of
  the script; the flag \<^verbatim>\<open>exit_requested\<close> is set in \<open>w'\<close> exactly when it was set in
  \<open>w\<close> or one of the consumed entries delivered \<^verbatim>\<open>SIGINT\<close> or \<^verbatim>\<open>SIGTERM\<close>; the
  trace and the log have only grown.
\<close>

definition later :: "world \<Rightarrow> world \<Rightarrow> bool" where
  "later w w' \<longleftrightarrow>
     (\<exists>used. script w = used @ script w' \<and>
        exit_requested w' = (exit_requested w \<or> (\<exists>e \<in> set used. shutdown_signal (fst e)))) \<and>
     (\<exists>t. trace w' = trace w @ t) \<and>
     (\<exists>l. syslog_out w' = syslog_out w @ l)"

lemma later_refl [simp]: "later w w"
  by (simp add: later_def)

lemma later_trans: "later w w1 \<Longrightarrow> later w1 w2 \<Longrightarrow> later w w2"
proof -
  assume a: "later w w1" and b: "later w1 w2"
  from a obtain u1 where u1: "script w = u1 @ script w1"
    "exit_requested w1 = (exit_requested w \<or> (\<exists>e \<in> set u1. shutdown_signal (fst e)))"
    by (auto simp: later_def)
  from b obtain u2 where u2: "script w1 = u2 @ script w2"
    "exit_requested w2 = (exit_requested w1 \<or> (\<exists>e \<in> set u2. shutdown_signal (fst e)))"
    by (auto simp: later_def)
  have "script w = (u1 @ u2) @ script w2"
    using u1(1) u2(1) by simp
  moreover have "exit_requested w2 =
      (exit_requested w \<or> (\<exists>e \<in> set (u1 @ u2). shutdown_signal (fst e)))"
    using u1(2) u2(2) by auto
  moreover from a b have "\<exists>t. trace w2 = trace w @ t"
    by (auto simp: later_def)
  moreover from a b have "\<exists>l. syslog_out w2 = syslog_out w @ l"
    by (auto simp: later_def)
  ultimately show ?thesis
    unfolding later_def by blast
qed

lemma later_script: "later w w' \<Longrightarrow> length (script w') \<le> length (script w)"
  by (auto simp: later_def)

lemma later_exit: "later w w' \<Longrightarrow> exit_requested w \<Longrightarrow> exit_requested w'"
  by (auto simp: later_def)

lemma later_syslog: "later w w' \<Longrightarrow> later w (syslog p m w')"
  by (auto simp: later_def syslog_def)

lemma later_syslog_self [simp]: "later w (syslog p m w)"
  by (rule later_syslog) simp

lemma later_update [simp]:
  "later w (w'\<lparr>data_file := f\<rparr>) = later w w'"
  "later w (w'\<lparr>sock_out := bs\<rparr>) = later w w'"
  "later w (w'\<lparr>sock_in := bs\<rparr>) = later w w'"
  "later w (w'\<lparr>pending := bs\<rparr>) = later w w'"
  "later w (w'\<lparr>clients := cs\<rparr>) = later w w'"
  by (simp_all add: later_def)

lemma sys_later: "sys c w = Some (r, w') \<Longrightarrow> later w w'"
proof -
  assume "sys c w = Some (r, w')"
  then obtain sigs rest where s: "script w = (sigs, r) # rest"
    and w': "w' = deliver sigs (w\<lparr>script := rest, trace := trace w @ [(c, r)]\<rparr>)"
    by (auto simp: sys_Some)
  have "script w = [(sigs, r)] @ script w'"
    using s w' by (simp add: deliver_eq)
  moreover have "exit_requested w' =
      (exit_requested w \<or> (\<exists>e \<in> set [(sigs, r)]. shutdown_signal (fst e)))"
    using w' by (simp add: deliver_eq)
  moreover have "trace w' = trace w @ [(c, r)]" "syslog_out w' = syslog_out w @ []"
    using w' by (simp_all add: deliver_eq)
  ultimately show ?thesis
    unfolding later_def by blast
qed

lemma sys_script:
  "sys c w = Some (r, w') \<Longrightarrow> length (script w') < length (script w)"
  by (auto simp: sys_Some deliver_eq)

lemma open_append_later: "open_append w = Some (r, w') \<Longrightarrow> later w w'"
  by (auto simp: open_append_def split: option.splits reply.splits dest!: sys_later)

lemma write_fd_later: "write_fd buf w = Some (r, w') \<Longrightarrow> later w w'"
  by (auto simp: write_fd_def Let_def split: option.splits reply.splits dest!: sys_later)

lemma open_read_later: "open_read w = Some (r, w') \<Longrightarrow> later w w'"
  by (auto simp: open_read_def split: option.splits reply.splits if_splits dest!: sys_later)

lemma read_fd_later: "read_fd off count w = Some (r, w') \<Longrightarrow> later w w'"
  by (auto simp: read_fd_def split: option.splits reply.splits dest!: sys_later)

lemma send_later: "send buf w = Some (r, w') \<Longrightarrow> later w w'"
  by (auto simp: send_def Let_def split: option.splits reply.splits dest!: sys_later)

lemma recv_later: "recv count w = Some (r, w') \<Longrightarrow> later w w'"
  by (auto simp: recv_def Let_def split: option.splits reply.splits dest!: sys_later)

lemma remove_file_later: "remove_file w = Some (r, w') \<Longrightarrow> later w w'"
  by (auto simp: remove_file_def split: option.splits reply.splits if_splits dest!: sys_later)

lemma write_fd_script:
  "write_fd buf w = Some (r, w') \<Longrightarrow> length (script w') < length (script w)"
  by (auto simp: write_fd_def Let_def sys_Some deliver_eq split: option.splits reply.splits)

lemma send_script:
  "send buf w = Some (r, w') \<Longrightarrow> length (script w') < length (script w)"
  by (auto simp: send_def Let_def sys_Some deliver_eq split: option.splits reply.splits)

lemma read_fd_script:
  "read_fd off count w = Some (r, w') \<Longrightarrow> length (script w') < length (script w)"
  by (auto simp: read_fd_def sys_Some deliver_eq split: option.splits reply.splits)

lemma recv_script:
  "recv count w = Some (r, w') \<Longrightarrow> length (script w') < length (script w)"
  by (auto simp: recv_def Let_def sys_Some deliver_eq split: option.splits reply.splits)

section \<open>The persistent store\<close>

text \<open>
  \<^verbatim>\<open>append_to_file\<close>, lines 46-74. The span \<^verbatim>\<open>data .. data + len\<close> is the list
  \<open>data\<close>. The loop of lines 55-66 is \<open>write_loop\<close>: it answers \<open>True\<close> when the
  whole span is written and \<open>False\<close> when a write failed (the descriptor is closed
  on that path, line 62).
\<close>

function write_loop :: "bytes \<Rightarrow> nat \<Rightarrow> world \<Rightarrow> (bool \<times> world) option" where
  "write_loop data written w =
     (if written < length data then
        (case write_fd (drop written data) w of
           None \<Rightarrow> None
         | Some (Inl e, w1) \<Rightarrow>
             (if e = EINTR then write_loop data written w1
              else (case sys (Close Append_fd) (syslog LOG_ERR ''write failed'' w1) of
                      None \<Rightarrow> None
                    | Some (_, w2) \<Rightarrow> Some (False, w2)))
         | Some (Inr n, w1) \<Rightarrow> write_loop data (written + n) w1)
      else Some (True, w))"
  by pat_completeness auto
termination
  by (relation "measure (\<lambda>(data, written, w). length (script w))")
     (auto dest: write_fd_script)

declare write_loop.simps [simp del]

lemma write_loop_later: "write_loop data written w = Some (r, w') \<Longrightarrow> later w w'"
proof (induction data written w rule: write_loop.induct)
  case (1 data written w)
  note unfold = write_loop.simps [of data written w]
  show ?case
  proof (cases "written < length data")
    case False
    with "1.prems" show ?thesis by (simp add: unfold)
  next
    case True
    with "1.prems" obtain x w1 where s: "write_fd (drop written data) w = Some (x, w1)"
      by (auto simp: unfold split: option.splits)
    have l1: "later w w1"
      using s by (rule write_fd_later)
    have "later w1 w'"
    proof (cases x)
      case (Inr n)
      with "1.prems" True s have "write_loop data (written + n) w1 = Some (r, w')"
        by (simp add: unfold)
      with "1.IH"(2) [OF True s [unfolded Inr]] show ?thesis by simp
    next
      case (Inl e)
      show ?thesis
      proof (cases "e = EINTR")
        case True
        with "1.prems" \<open>written < length data\<close> s Inl
        have "write_loop data written w1 = Some (r, w')"
          by (simp add: unfold)
        with "1.IH"(1) [OF \<open>written < length data\<close> s [unfolded Inl]] True Inl
        show ?thesis by auto
      next
        case False
        with "1.prems" True s Inl obtain x2 where
          "sys (Close Append_fd) (syslog LOG_ERR ''write failed'' w1) = Some (x2, w')"
          by (auto simp: unfold split: option.splits)
        then have "later (syslog LOG_ERR ''write failed'' w1) w'"
          by (rule sys_later)
        then show ?thesis
          by (rule later_trans [OF later_syslog [OF later_refl]])
      qed
    qed
    with l1 show ?thesis by (rule later_trans)
  qed
qed

definition append_to_file :: "bytes \<Rightarrow> world \<Rightarrow> (int \<times> world) option" where
  "append_to_file data w =
     (case open_append w of
        None \<Rightarrow> None
      | Some (Some e, w1) \<Rightarrow> Some (- 1, syslog LOG_ERR ''open failed'' w1)
      | Some (None, w1) \<Rightarrow>
          (case write_loop data 0 w1 of
             None \<Rightarrow> None
           | Some (False, w2) \<Rightarrow> Some (- 1, w2)
           | Some (True, w2) \<Rightarrow>
               (case sys (Close Append_fd) w2 of
                  None \<Rightarrow> None
                | Some (Fail e, w3) \<Rightarrow> Some (- 1, syslog LOG_ERR ''close data file failed'' w3)
                | Some (Ret _, w3) \<Rightarrow> Some (0, w3))))"

lemma append_to_file_later: "append_to_file data w = Some (r, w') \<Longrightarrow> later w w'"
  unfolding append_to_file_def
  by (auto split: option.splits bool.splits reply.splits
           dest!: open_append_later write_loop_later sys_later;
      (blast intro: later_trans later_syslog))

text \<open>
  \<^verbatim>\<open>send_file_contents\<close>, lines 80-119. The inner loop of lines 93-104 sends the
  chunk \<open>buf\<close> that \<^verbatim>\<open>read\<close> returned; the outer loop of lines 91-105 reads at the
  descriptor's offset \<open>off\<close> until \<^verbatim>\<open>read\<close> returns no byte. Both answer \<open>False\<close>
  when the function is to return \<open>-1\<close> (the descriptor is closed on those paths).
\<close>

function send_loop :: "bytes \<Rightarrow> nat \<Rightarrow> world \<Rightarrow> (bool \<times> world) option" where
  "send_loop buf sent_total w =
     (if sent_total < length buf then
        (case send (drop sent_total buf) w of
           None \<Rightarrow> None
         | Some (Inl e, w1) \<Rightarrow>
             (if e = EINTR then send_loop buf sent_total w1
              else (case sys (Close Read_fd) (syslog LOG_ERR ''send() failed'' w1) of
                      None \<Rightarrow> None
                    | Some (_, w2) \<Rightarrow> Some (False, w2)))
         | Some (Inr n, w1) \<Rightarrow> send_loop buf (sent_total + n) w1)
      else Some (True, w))"
  by pat_completeness auto
termination
  by (relation "measure (\<lambda>(buf, sent_total, w). length (script w))")
     (auto dest: send_script)

declare send_loop.simps [simp del]

lemma send_loop_later: "send_loop buf sent_total w = Some (r, w') \<Longrightarrow> later w w'"
proof (induction buf sent_total w rule: send_loop.induct)
  case (1 buf sent_total w)
  note unfold = send_loop.simps [of buf sent_total w]
  show ?case
  proof (cases "sent_total < length buf")
    case False
    with "1.prems" show ?thesis by (simp add: unfold)
  next
    case True
    with "1.prems" obtain x w1 where s: "send (drop sent_total buf) w = Some (x, w1)"
      by (auto simp: unfold split: option.splits)
    have l1: "later w w1"
      using s by (rule send_later)
    show ?thesis
    proof (cases x)
      case (Inr n)
      with "1.prems" True s have "send_loop buf (sent_total + n) w1 = Some (r, w')"
        by (simp add: unfold)
      with "1.IH"(2) [OF True s [unfolded Inr]] have "later w1 w'" by simp
      with l1 show ?thesis by (rule later_trans)
    next
      case (Inl e)
      show ?thesis
      proof (cases "e = EINTR")
        case True
        with "1.prems" \<open>sent_total < length buf\<close> s Inl
        have "send_loop buf sent_total w1 = Some (r, w')"
          by (simp add: unfold)
        with "1.IH"(1) [OF \<open>sent_total < length buf\<close> s [unfolded Inl]] True Inl
        have "later w1 w'" by auto
        with l1 show ?thesis by (rule later_trans)
      next
        case False
        with "1.prems" True s Inl obtain x2 where
          "sys (Close Read_fd) (syslog LOG_ERR ''send() failed'' w1) = Some (x2, w')"
          by (auto simp: unfold split: option.splits)
        then have "later (syslog LOG_ERR ''send() failed'' w1) w'"
          by (rule sys_later)
        moreover have "later w (syslog LOG_ERR ''send() failed'' w1)"
          using l1 by (rule later_syslog)
        ultimately show ?thesis by (rule later_trans [rotated])
      qed
    qed
  qed
qed

function read_loop :: "nat \<Rightarrow> world \<Rightarrow> (bool \<times> world) option" where
  "read_loop off w =
     (case read_fd off 1024 w of
        None \<Rightarrow> None
      | Some (Inl e, w1) \<Rightarrow>
          (case sys (Close Read_fd) (syslog LOG_ERR ''read failed'' w1) of
             None \<Rightarrow> None
           | Some (_, w2) \<Rightarrow> Some (False, w2))
      | Some (Inr buf, w1) \<Rightarrow>
          (if 0 < length buf then
             (case send_loop buf 0 w1 of
                None \<Rightarrow> None
              | Some (False, w2) \<Rightarrow> Some (False, w2)
              | Some (True, w2) \<Rightarrow> read_loop (off + length buf) w2)
           else Some (True, w1)))"
  by pat_completeness auto
termination
  by (relation "measure (\<lambda>(off, w). length (script w))")
     (auto dest!: read_fd_script send_loop_later later_script)

declare read_loop.simps [simp del]

lemma read_loop_later: "read_loop off w = Some (r, w') \<Longrightarrow> later w w'"
proof (induction off w rule: read_loop.induct)
  case (1 off w)
  note unfold = read_loop.simps [of off w]
  from "1.prems" obtain x w1 where s: "read_fd off 1024 w = Some (x, w1)"
    by (auto simp: unfold split: option.splits)
  have l1: "later w w1"
    using s by (rule read_fd_later)
  have "later w1 w'"
  proof (cases x)
    case (Inl e)
    with "1.prems" s obtain x2 where
      "sys (Close Read_fd) (syslog LOG_ERR ''read failed'' w1) = Some (x2, w')"
      by (auto simp: unfold split: option.splits)
    then have "later (syslog LOG_ERR ''read failed'' w1) w'"
      by (rule sys_later)
    then show ?thesis
      by (rule later_trans [OF later_syslog [OF later_refl]])
  next
    case (Inr buf)
    show ?thesis
    proof (cases "0 < length buf")
      case False
      with "1.prems" s Inr show ?thesis by (simp add: unfold)
    next
      case True
      with "1.prems" s Inr obtain ok w2 where sl: "send_loop buf 0 w1 = Some (ok, w2)"
        by (auto simp: unfold split: option.splits)
      have l2: "later w1 w2"
        using sl by (rule send_loop_later)
      show ?thesis
      proof (cases ok)
        case False
        with "1.prems" s Inr True sl have "w' = w2" by (simp add: unfold)
        with l2 show ?thesis by simp
      next
        case ok: True
        with "1.prems" s Inr True sl
        have "read_loop (off + length buf) w2 = Some (r, w')"
          by (simp add: unfold)
        with "1.IH" [OF s refl Inr True sl refl] ok have "later w2 w'"
          by simp
        with l2 show ?thesis by (rule later_trans)
      qed
    qed
  qed
  with l1 show ?case by (rule later_trans)
qed

definition send_file_contents :: "world \<Rightarrow> (int \<times> world) option" where
  "send_file_contents w =
     (case open_read w of
        None \<Rightarrow> None
      | Some (Some e, w1) \<Rightarrow> Some (- 1, syslog LOG_ERR ''open for read failed'' w1)
      | Some (None, w1) \<Rightarrow>
          (case read_loop 0 w1 of
             None \<Rightarrow> None
           | Some (False, w2) \<Rightarrow> Some (- 1, w2)
           | Some (True, w2) \<Rightarrow>
               (case sys (Close Read_fd) w2 of
                  None \<Rightarrow> None
                | Some (Fail e, w3) \<Rightarrow> Some (- 1, syslog LOG_ERR ''close data file failed'' w3)
                | Some (Ret _, w3) \<Rightarrow> Some (0, w3))))"

lemma send_file_contents_later: "send_file_contents w = Some (r, w') \<Longrightarrow> later w w'"
  unfolding send_file_contents_def
  by (auto split: option.splits bool.splits reply.splits
           dest!: open_read_later read_loop_later sys_later;
      (blast intro: later_trans later_syslog))

section \<open>The connection handler\<close>

text \<open>
  The \<^verbatim>\<open>for\<close> loop of lines 167-187, over the first \<open>packet_size\<close> bytes of
  \<open>packet_buf\<close>: it answers the final value of \<^verbatim>\<open>start\<close>. A \<^verbatim>\<open>break\<close> leaves this
  loop only.
\<close>

function process_packets :: "bytes \<Rightarrow> nat \<Rightarrow> nat \<Rightarrow> nat \<Rightarrow> world \<Rightarrow> (nat \<times> world) option" where
  "process_packets packet_buf packet_size i start w =
     (if i < packet_size then
        (if packet_buf ! i = newline then
           (case append_to_file (take (i - start + 1) (drop start packet_buf)) w of
              None \<Rightarrow> None
            | Some (r, w1) \<Rightarrow>
                (if r \<noteq> 0 then Some (i + 1, w1)
                 else (case send_file_contents w1 of
                         None \<Rightarrow> None
                       | Some (r', w2) \<Rightarrow>
                           (if r' \<noteq> 0 then Some (i + 1, w2)
                            else process_packets packet_buf packet_size (i + 1) (i + 1) w2))))
         else process_packets packet_buf packet_size (i + 1) start w)
      else Some (start, w))"
  by pat_completeness auto
termination
  by (relation "measure (\<lambda>(packet_buf, packet_size, i, start, w). packet_size - i)") auto

declare process_packets.simps [simp del]

lemma process_packets_later:
  "process_packets packet_buf packet_size i start w = Some (r, w') \<Longrightarrow> later w w'"
proof (induction packet_buf packet_size i start w rule: process_packets.induct)
  case (1 packet_buf packet_size i start w)
  note unfold = process_packets.simps [of packet_buf packet_size i start w]
  show ?case
  proof (cases "i < packet_size")
    case False
    with "1.prems" show ?thesis by (simp add: unfold)
  next
    case True
    show ?thesis
    proof (cases "packet_buf ! i = newline")
      case False
      with "1.prems" True
      have "process_packets packet_buf packet_size (i + 1) start w = Some (r, w')"
        by (simp add: unfold)
      with "1.IH"(2) [OF True False] show ?thesis by simp
    next
      case nl: True
      with "1.prems" True obtain r1 w1 where
        a: "append_to_file (take (i - start + 1) (drop start packet_buf)) w = Some (r1, w1)"
        by (auto simp: unfold split: option.splits)
      have l1: "later w w1"
        using a by (rule append_to_file_later)
      show ?thesis
      proof (cases "r1 \<noteq> 0")
        case True
        with "1.prems" \<open>i < packet_size\<close> nl a have "w' = w1" by (simp add: unfold)
        with l1 show ?thesis by simp
      next
        case r1: False
        with "1.prems" True nl a obtain r2 w2 where
          b: "send_file_contents w1 = Some (r2, w2)"
          by (auto simp: unfold split: option.splits)
        have l2: "later w1 w2"
          using b by (rule send_file_contents_later)
        show ?thesis
        proof (cases "r2 \<noteq> 0")
          case True
          with "1.prems" \<open>i < packet_size\<close> nl a r1 b have "w' = w2" by (simp add: unfold)
          with l1 l2 show ?thesis by (auto intro: later_trans)
        next
          case r2: False
          with "1.prems" True nl a r1 b
          have "process_packets packet_buf packet_size (i + 1) (i + 1) w2 = Some (r, w')"
            by (simp add: unfold)
          with "1.IH"(1) [OF True nl a refl r1 b refl r2] have "later w2 w'" by simp
          with l1 l2 show ?thesis by (blast intro: later_trans)
        qed
      qed
    qed
  qed
qed

text \<open>
  Lines 190-199: the bytes before \<open>start\<close> leave the buffer. \<^verbatim>\<open>memmove\<close> copies the
  \<open>remaining\<close> bytes to the front of the block; \<^verbatim>\<open>realloc\<close> then cuts the block to
  \<open>remaining\<close> bytes, or fails and leaves it as it is.
\<close>

definition remove_processed ::
    "bytes \<Rightarrow> nat \<Rightarrow> nat \<Rightarrow> world \<Rightarrow> ((bytes option \<times> nat) \<times> world) option" where
  "remove_processed packet_buf packet_size start w =
     (if 0 < start \<and> start \<le> packet_size then
        (let remaining = packet_size - start;
             moved = take remaining (drop start packet_buf) @ drop remaining packet_buf
         in case sys Realloc w of
              None \<Rightarrow> None
            | Some (Ret _, w1) \<Rightarrow> Some ((Some (take remaining moved), remaining), w1)
            | Some (Fail _, w1) \<Rightarrow>
                Some ((if remaining = 0 then None else Some moved, remaining), w1))
      else Some ((Some packet_buf, packet_size), w))"

text \<open>
  One turn of the \<^verbatim>\<open>while\<close> loop of \<^verbatim>\<open>handle_client\<close>, lines 136-199, on the
  local state \<open>(packet_buf, packet_size)\<close>; \<open>None\<close> for \<open>packet_buf\<close> is \<^verbatim>\<open>NULL\<close>.
  \<^verbatim>\<open>realloc\<close> to \<open>packet_size + bytes\<close> keeps the first \<open>packet_size\<close> bytes of the
  block, and \<^verbatim>\<open>memcpy\<close> puts the received chunk behind them (lines 154-164).
\<close>

datatype 'a flow = Continue 'a | Break 'a

fun flow_state :: "'a flow \<Rightarrow> 'a" where
  "flow_state (Continue x) = x"
| "flow_state (Break x) = x"

definition handle_iteration ::
    "bytes option \<Rightarrow> nat \<Rightarrow> world \<Rightarrow> ((bytes option \<times> nat \<times> world) flow) option" where
  "handle_iteration packet_buf packet_size w =
     (case recv 1024 w of
        None \<Rightarrow> None
      | Some (Inl e, w1) \<Rightarrow>
          (if e = EINTR \<and> exit_requested w1 then Some (Break (packet_buf, packet_size, w1))
           else if e = EINTR then Some (Continue (packet_buf, packet_size, w1))
           else Some (Break (packet_buf, packet_size, syslog LOG_ERR ''recv() failed'' w1)))
      | Some (Inr chunk, w1) \<Rightarrow>
          (if length chunk = 0 then Some (Break (packet_buf, packet_size, w1))
           else
             (case sys Realloc w1 of
                None \<Rightarrow> None
              | Some (Fail _, w2) \<Rightarrow>
                  Some (Break (None, 0,
                    syslog LOG_ERR ''realloc() failed while growing packet buffer'' w2))
              | Some (Ret _, w2) \<Rightarrow>
                  (let new_buf = take packet_size (contents packet_buf) @ chunk;
                       new_size = packet_size + length chunk
                   in case process_packets new_buf new_size 0 0 w2 of
                        None \<Rightarrow> None
                      | Some (start, w3) \<Rightarrow>
                          (case remove_processed new_buf new_size start w3 of
                             None \<Rightarrow> None
                           | Some ((pb, ps), w4) \<Rightarrow> Some (Continue (pb, ps, w4)))))))"

lemma remove_processed_later:
  "remove_processed packet_buf packet_size start w = Some (r, w') \<Longrightarrow> later w w'"
  by (auto simp: remove_processed_def Let_def split: if_splits option.splits reply.splits
           dest!: sys_later)

lemma handle_iteration_recv:
  assumes "handle_iteration packet_buf packet_size w = Some fl"
  shows "\<exists>x w1. recv 1024 w = Some (x, w1) \<and> later w1 (snd (snd (flow_state fl)))"
proof -
  from assms obtain x w1 where r: "recv 1024 w = Some (x, w1)"
    by (auto simp: handle_iteration_def split: option.splits)
  have "later w1 (snd (snd (flow_state fl)))"
  proof (cases x)
    case (Inl e)
    with assms r show ?thesis
      by (auto simp: handle_iteration_def split: if_splits intro: later_syslog)
  next
    case (Inr chunk)
    show ?thesis
    proof (cases "length chunk = 0")
      case True
      with assms r Inr show ?thesis
        by (auto simp: handle_iteration_def)
    next
      case False
      with assms r Inr obtain x2 w2 where re: "sys Realloc w1 = Some (x2, w2)"
        by (auto simp: handle_iteration_def split: option.splits)
      have l2: "later w1 w2"
        using re by (rule sys_later)
      show ?thesis
      proof (cases x2)
        case (Fail e)
        with assms r Inr False re l2 show ?thesis
          by (auto simp: handle_iteration_def intro: later_syslog)
      next
        case (Ret k)
        let ?buf = "take packet_size (contents packet_buf) @ chunk"
        let ?size = "packet_size + length chunk"
        from assms r Inr False re Ret obtain start w3 where
          pp: "process_packets ?buf ?size 0 0 w2 = Some (start, w3)"
          by (auto simp: handle_iteration_def Let_def split: option.splits)
        from assms r Inr False re Ret pp obtain pb ps w4 where
          rp: "remove_processed ?buf ?size start w3 = Some ((pb, ps), w4)"
          and fl: "fl = Continue (pb, ps, w4)"
          by (auto simp: handle_iteration_def Let_def split: option.splits)
        have "later w2 w3" using pp by (rule process_packets_later)
        moreover have "later w3 w4" using rp by (rule remove_processed_later)
        ultimately have "later w1 w4" using l2 by (blast intro: later_trans)
        with fl show ?thesis by simp
      qed
    qed
  qed
  with r show ?thesis by blast
qed

lemma handle_iteration_later:
  "handle_iteration packet_buf packet_size w = Some fl \<Longrightarrow>
     later w (snd (snd (flow_state fl)))"
  by (blast dest: handle_iteration_recv recv_later intro: later_trans)

lemma handle_iteration_script:
  "handle_iteration packet_buf packet_size w = Some fl \<Longrightarrow>
     length (script (snd (snd (flow_state fl)))) < length (script w)"
  by (fastforce dest: handle_iteration_recv recv_script later_script)

text \<open>
  The \<^verbatim>\<open>while (!exit_requested)\<close> loop of line 135 and \<^verbatim>\<open>handle_client\<close>, lines
  128-203. The final \<^verbatim>\<open>free\<close> changes nothing that the world records.
\<close>

function handle_loop ::
    "bytes option \<Rightarrow> nat \<Rightarrow> world \<Rightarrow> (bytes option \<times> nat \<times> world) option" where
  "handle_loop packet_buf packet_size w =
     (if exit_requested w then Some (packet_buf, packet_size, w)
      else
        (case handle_iteration packet_buf packet_size w of
           None \<Rightarrow> None
         | Some (Break st) \<Rightarrow> Some st
         | Some (Continue (pb, ps, w')) \<Rightarrow> handle_loop pb ps w'))"
  by pat_completeness auto
termination
  by (relation "measure (\<lambda>(packet_buf, packet_size, w). length (script w))")
     (auto dest: handle_iteration_script)

declare handle_loop.simps [simp del]

definition handle_client :: "world \<Rightarrow> world option" where
  "handle_client w =
     (case handle_loop None 0 w of
        None \<Rightarrow> None
      | Some (packet_buf, packet_size, w') \<Rightarrow> Some w')"

lemma handle_loop_later:
  "handle_loop packet_buf packet_size w = Some (pb, ps, w') \<Longrightarrow> later w w'"
proof (induction packet_buf packet_size w rule: handle_loop.induct)
  case (1 packet_buf packet_size w)
  note unfold = handle_loop.simps [of packet_buf packet_size w]
  show ?case
  proof (cases "exit_requested w")
    case True
    with "1.prems" show ?thesis by (simp add: unfold)
  next
    case False
    with "1.prems" obtain fl where it: "handle_iteration packet_buf packet_size w = Some fl"
      by (auto simp: unfold split: option.splits)
    have l1: "later w (snd (snd (flow_state fl)))"
      using it by (rule handle_iteration_later)
    show ?thesis
    proof (cases fl)
      case (Break st)
      with "1.prems" False it l1 show ?thesis by (auto simp: unfold)
    next
      case (Continue st)
      obtain pb1 ps1 w1 where st: "st = (pb1, ps1, w1)" by (cases st)
      with "1.prems" False it Continue have "handle_loop pb1 ps1 w1 = Some (pb, ps, w')"
        by (simp add: unfold)
      with "1.IH" [OF False it [unfolded Continue st] refl refl refl] have "later w1 w'"
        by simp
      with l1 Continue st show ?thesis by (auto intro: later_trans)
    qed
  qed
qed

lemma handle_client_later: "handle_client w = Some w' \<Longrightarrow> later w w'"
  by (auto simp: handle_client_def split: option.splits dest: handle_loop_later)

section \<open>The main loop\<close>

text \<open>
  \<^verbatim>\<open>accept\<close>: on success the next client is connected, and the connection starts with
  nothing received and nothing sent. When no client ever connects the call does not
  return.
\<close>

definition accept :: "world \<Rightarrow> (errno option \<times> world) option" where
  "accept w =
     (case sys Accept w of
        None \<Rightarrow> None
      | Some (Fail e, w1) \<Rightarrow> Some (Some e, w1)
      | Some (Ret _, w1) \<Rightarrow>
          (case clients w1 of
             [] \<Rightarrow> None
           | c # cs \<Rightarrow>
               Some (None, w1\<lparr>clients := cs, pending := c, sock_in := [], sock_out := []\<rparr>)))"

lemma accept_later: "accept w = Some (r, w') \<Longrightarrow> later w w'"
  by (auto simp: accept_def split: option.splits reply.splits list.splits dest!: sys_later)

lemma accept_script:
  "accept w = Some (r, w') \<Longrightarrow> length (script w') < length (script w)"
  by (auto simp: accept_def split: option.splits reply.splits list.splits dest!: sys_script)

text \<open>
  The accept loop of \<^verbatim>\<open>main\<close>, lines 267-300. \<^verbatim>\<open>inet_ntop\<close> only produces the
  address that the two log lines print.
\<close>

function accept_loop :: "world \<Rightarrow> world option" where
  "accept_loop w =
     (if exit_requested w then Some w
      else
        (case accept w of
           None \<Rightarrow> None
         | Some (Some e, w1) \<Rightarrow>
             (if e = EINTR \<and> exit_requested w1 then Some w1
              else if e = EINTR then accept_loop w1
              else accept_loop (syslog LOG_ERR ''accept() failed'' w1))
         | Some (None, w1) \<Rightarrow>
             (case handle_client (syslog LOG_INFO ''Accepted connection from'' w1) of
                None \<Rightarrow> None
              | Some w2 \<Rightarrow>
                  (case sys (Close Client_fd) (syslog LOG_INFO ''Closed connection from'' w2) of
                     None \<Rightarrow> None
                   | Some (Fail _, w3) \<Rightarrow>
                       accept_loop (syslog LOG_ERR ''close(client_fd) failed'' w3)
                   | Some (Ret _, w3) \<Rightarrow> accept_loop w3))))"
  by pat_completeness auto
termination
  by (relation "measure (\<lambda>w. length (script w))")
     (auto simp: syslog_def
           dest!: accept_script handle_client_later sys_script later_script)

declare accept_loop.simps [simp del]

text \<open>
  The label \<^verbatim>\<open>cleanup\<close>, lines 306-319; \<open>have_fd\<close> says that \<^verbatim>\<open>server_fd\<close> is not
  \<open>-1\<close>.
\<close>

definition close_server :: "bool \<Rightarrow> world \<Rightarrow> world option" where
  "close_server have_fd w =
     (if have_fd then
        (case sys (Close Server_fd) w of
           None \<Rightarrow> None
         | Some (Fail _, w1) \<Rightarrow> Some (syslog LOG_ERR ''close(server_fd) failed'' w1)
         | Some (Ret _, w1) \<Rightarrow> Some w1)
      else Some w)"

definition cleanup :: "bool \<Rightarrow> int \<Rightarrow> world \<Rightarrow> (int \<times> world) option" where
  "cleanup have_fd ret w =
     (case close_server have_fd w of
        None \<Rightarrow> None
      | Some w1 \<Rightarrow>
          (case remove_file w1 of
             None \<Rightarrow> None
           | Some (Some e, w2) \<Rightarrow>
               Some (ret, if e \<noteq> ENOENT then syslog LOG_ERR ''remove failed'' w2 else w2)
           | Some (None, w2) \<Rightarrow> Some (ret, w2)))"

text \<open>
  A call of the setup phase: on failure its message is logged. \<^verbatim>\<open>main\<close>, lines
  205-320, runs the six setup calls in order; the first failure sets \<^verbatim>\<open>ret\<close> to
  \<open>-1\<close> and jumps to \<^verbatim>\<open>cleanup\<close>.
\<close>

definition setup_call :: "call \<Rightarrow> string \<Rightarrow> world \<Rightarrow> (bool \<times> world) option" where
  "setup_call c msg w =
     (case sys c w of
        None \<Rightarrow> None
      | Some (Fail _, w1) \<Rightarrow> Some (False, syslog LOG_ERR msg w1)
      | Some (Ret _, w1) \<Rightarrow> Some (True, w1))"

definition main :: "world \<Rightarrow> (int \<times> world) option" where
  "main w =
     (case setup_call (Sigaction SIGINT) ''sigaction(SIGINT) failed'' w of
        None \<Rightarrow> None
      | Some (False, w1) \<Rightarrow> cleanup False (- 1) w1
      | Some (True, w1) \<Rightarrow>
     (case setup_call (Sigaction SIGTERM) ''sigaction(SIGTERM) failed'' w1 of
        None \<Rightarrow> None
      | Some (False, w2) \<Rightarrow> cleanup False (- 1) w2
      | Some (True, w2) \<Rightarrow>
     (case setup_call Socket ''socket() failed'' w2 of
        None \<Rightarrow> None
      | Some (False, w3) \<Rightarrow> cleanup False (- 1) w3
      | Some (True, w3) \<Rightarrow>
     (case setup_call Setsockopt ''setsockopt(SO_REUSEADDR) failed'' w3 of
        None \<Rightarrow> None
      | Some (False, w4) \<Rightarrow> cleanup True (- 1) w4
      | Some (True, w4) \<Rightarrow>
     (case setup_call Bind ''bind() failed'' w4 of
        None \<Rightarrow> None
      | Some (False, w5) \<Rightarrow> cleanup True (- 1) w5
      | Some (True, w5) \<Rightarrow>
     (case setup_call Listen ''listen() failed'' w5 of
        None \<Rightarrow> None
      | Some (False, w6) \<Rightarrow> cleanup True (- 1) w6
      | Some (True, w6) \<Rightarrow>
     (case accept_loop w6 of
        None \<Rightarrow> None
      | Some w7 \<Rightarrow>
          cleanup True 0
            (if exit_requested w7 then syslog LOG_INFO ''Caught signal, exiting'' w7
             else w7))))))))"

section \<open>The vocabulary of the claims\<close>

subsection \<open>Calls and their replies\<close>

text \<open>
  \<open>same_connection w w'\<close>: nothing was accepted or received between \<open>w\<close> and \<open>w'\<close>.
\<close>

definition same_connection :: "world \<Rightarrow> world \<Rightarrow> bool" where
  "same_connection w w' \<longleftrightarrow>
     clients w' = clients w \<and> pending w' = pending w \<and> sock_in w' = sock_in w"

text \<open>
  \<open>no_recv w w'\<close>: the calls made between \<open>w\<close> and \<open>w'\<close> do not include
  \<^verbatim>\<open>recv\<close>.
\<close>

definition no_recv :: "world \<Rightarrow> world \<Rightarrow> bool" where
  "no_recv w w' \<longleftrightarrow> (\<exists>t. trace w' = trace w @ t \<and> (\<forall>x \<in> set t. fst x \<noteq> Recv))"

text \<open>
  The replies to \<^verbatim>\<open>write\<close> and \<^verbatim>\<open>send\<close> after which the loops of lines 55-66 and
  93-104 go on: a success, or a failure with \<^verbatim>\<open>EINTR\<close>. A reply makes progress
  when it is a success that moves at least one byte.
\<close>

fun retried :: "reply \<Rightarrow> bool" where
  "retried (Ret _) = True"
| "retried (Fail e) = (e = EINTR)"

fun moves :: "reply \<Rightarrow> bool" where
  "moves (Ret k) = (0 < k)"
| "moves (Fail _) = False"

text \<open>
  The setup phase makes the first six calls of the process. It succeeds when the
  replies to them are all successes.
\<close>

definition setup_succeeds :: "world \<Rightarrow> bool" where
  "setup_succeeds w \<longleftrightarrow> (\<forall>e \<in> set (take 6 (script w)). succeeded (snd e))"

text \<open>
  \<^verbatim>\<open>remove\<close> is reported to the log when it fails for a reason other than
  \<^verbatim>\<open>ENOENT\<close> (line 314).
\<close>

fun removal_error :: "reply \<Rightarrow> bool" where
  "removal_error (Fail e) = (e \<noteq> ENOENT)"
| "removal_error (Ret _) = False"

text \<open>
  The calls of the setup phase in the order of lines 219-264, each with the message
  that is logged when it fails. The listening socket exists from the fourth call on:
  \<^verbatim>\<open>cleanup\<close> closes it when the call that failed is one of the last three.
  \<open>setup_failure k w ret w'\<close> describes the run of \<^verbatim>\<open>main\<close> from \<open>w\<close> to
  \<open>w'\<close> in which the first \<open>k\<close> calls succeed and the next one fails: these
  \<open>k + 1\<close> calls, the \<^verbatim>\<open>close\<close> of the socket if there is one, and \<^verbatim>\<open>remove\<close> are
  all the calls made; the log receives the message of the failed call, then one for
  the \<^verbatim>\<open>close\<close> if it failed, then one for \<^verbatim>\<open>remove\<close> if it failed with
  anything but \<^verbatim>\<open>ENOENT\<close>; the exit code is \<open>-1\<close>; the file is gone when
  \<^verbatim>\<open>remove\<close> succeeded and is as it was when it failed.
\<close>

definition setup_phase :: "(call \<times> string) list" where
  "setup_phase =
     [(Sigaction SIGINT, ''sigaction(SIGINT) failed''),
      (Sigaction SIGTERM, ''sigaction(SIGTERM) failed''),
      (Socket, ''socket() failed''),
      (Setsockopt, ''setsockopt(SO_REUSEADDR) failed''),
      (Bind, ''bind() failed''),
      (Listen, ''listen() failed'')]"

definition setup_failure :: "nat \<Rightarrow> world \<Rightarrow> int \<Rightarrow> world \<Rightarrow> bool" where
  "setup_failure k w ret w' \<longleftrightarrow>
     ret = - 1 \<and> k < 6 \<and> k < length (script w) \<and>
     (\<forall>e \<in> set (take k (script w)). succeeded (snd e)) \<and>
     \<not> succeeded (snd (script w ! k)) \<and>
     (\<exists>r1 r.
        trace w' = trace w @ zip (map fst setup_phase) (map snd (take (Suc k) (script w))) @
          (if 3 \<le> k then [(Close Server_fd, r1)] else []) @ [(Remove, r)] \<and>
        syslog_out w' = syslog_out w @ [(LOG_ERR, snd (setup_phase ! k))] @
          (if 3 \<le> k \<and> \<not> succeeded r1 then [(LOG_ERR, ''close(server_fd) failed'')] else []) @
          (if removal_error r then [(LOG_ERR, ''remove failed'')] else []) \<and>
        data_file w' = (if succeeded r then None else data_file w))"

text \<open>
  \<open>flag_tracks_signals w w'\<close>: between \<open>w\<close> and \<open>w'\<close> a part of the script was
  consumed, and \<^verbatim>\<open>exit_requested\<close> is set in \<open>w'\<close> exactly when it was set in \<open>w\<close>
  or a consumed entry ran the handler with \<^verbatim>\<open>SIGINT\<close> or \<^verbatim>\<open>SIGTERM\<close>.
\<close>

definition flag_tracks_signals :: "world \<Rightarrow> world \<Rightarrow> bool" where
  "flag_tracks_signals w w' \<longleftrightarrow>
     (\<exists>used. script w = used @ script w' \<and>
        exit_requested w' = (exit_requested w \<or> (\<exists>e \<in> set used. shutdown_signal (fst e))))"

subsection \<open>Failures of the store operations\<close>

text \<open>
  The messages that \<^verbatim>\<open>append_to_file\<close> logs, what the trace of a failed call
  contains, and the shape of the trace of a successful one.
\<close>

definition append_errors :: "string set" where
  "append_errors = {''open failed'', ''write failed'', ''close data file failed''}"

definition append_failure :: "(call \<times> reply) list \<Rightarrow> bool" where
  "append_failure t \<longleftrightarrow>
     (\<exists>e. (Open_append, Fail e) \<in> set t) \<or>
     (\<exists>e. e \<noteq> EINTR \<and> (Write, Fail e) \<in> set t) \<or>
     (\<exists>e. (Close Append_fd, Fail e) \<in> set t)"

definition append_success :: "(call \<times> reply) list \<Rightarrow> bool" where
  "append_success t \<longleftrightarrow>
     (\<exists>ro ws rc. t = (Open_append, ro) # ws @ [(Close Append_fd, rc)] \<and>
        succeeded ro \<and> succeeded rc \<and> (\<forall>x \<in> set ws. fst x = Write \<and> retried (snd x)))"

text \<open>
  The messages that \<^verbatim>\<open>send_file_contents\<close> logs.
\<close>

definition echo_errors :: "string set" where
  "echo_errors =
     {''open for read failed'', ''read failed'', ''send() failed'', ''close data file failed''}"

text \<open>
  \<open>undisturbed w w'\<close>: between \<open>w\<close> and \<open>w'\<close> no append failed, no read-back or
  send failed and no growth of the packet buffer failed. Each of these failures, and
  nothing else in the program, logs one of the messages \<open>store_errors\<close>.
\<close>

definition store_errors :: "string set" where
  "store_errors =
     append_errors \<union> echo_errors \<union> {''realloc() failed while growing packet buffer''}"

definition undisturbed :: "world \<Rightarrow> world \<Rightarrow> bool" where
  "undisturbed w w' \<longleftrightarrow>
     (\<forall>m \<in> store_errors.
        (LOG_ERR, m) \<notin> set (drop (length (syslog_out w)) (syslog_out w')))"

subsection \<open>Records\<close>

text \<open>
  In the words of the specification: a record is a span of bytes that ends with the
  delimiter, the newline. \<open>records xs\<close> are the complete records of the byte
  sequence \<open>xs\<close>, in order, and \<open>unterminated xs\<close> are the bytes after the last
  delimiter; both are computed from left to right with the record in progress as an
  accumulator. \<open>responses store rs\<close> are the contents of a store that holds
  \<open>store\<close> after each of the records \<open>rs\<close> is appended to it in turn.
\<close>

fun records_from :: "bytes \<Rightarrow> bytes \<Rightarrow> bytes list" where
  "records_from acc [] = []"
| "records_from acc (x # xs) =
     (if x = newline then (acc @ [x]) # records_from [] xs else records_from (acc @ [x]) xs)"

fun rest_from :: "bytes \<Rightarrow> bytes \<Rightarrow> bytes" where
  "rest_from acc [] = acc"
| "rest_from acc (x # xs) = (if x = newline then rest_from [] xs else rest_from (acc @ [x]) xs)"

definition records :: "bytes \<Rightarrow> bytes list" where
  "records xs = records_from [] xs"

definition unterminated :: "bytes \<Rightarrow> bytes" where
  "unterminated xs = rest_from [] xs"

fun responses :: "bytes \<Rightarrow> bytes list \<Rightarrow> bytes list" where
  "responses store [] = []"
| "responses store (r # rs) = (store @ r) # responses (store @ r) rs"

subsection \<open>The loops of the connection handler\<close>

text \<open>
  \<open>packets_outcome seg k w w'\<close> describes a pass of the loop of lines 167-187 over the
  bytes \<open>seg\<close> of the buffer from \<^verbatim>\<open>start\<close> on, which moves \<^verbatim>\<open>start\<close> by \<open>k\<close>:
  either nothing is logged, every complete record of \<open>seg\<close> is appended to the file
  and answered by the whole file, and \<open>k\<close> is their total length; or the pass ends
  with an error of \<^verbatim>\<open>append_to_file\<close> or \<^verbatim>\<open>send_file_contents\<close> in the log.
\<close>

definition packets_outcome :: "bytes \<Rightarrow> nat \<Rightarrow> world \<Rightarrow> world \<Rightarrow> bool" where
  "packets_outcome seg k w w' \<longleftrightarrow>
     same_connection w w' \<and> k \<le> length seg \<and>
     ((syslog_out w' = syslog_out w \<and> k = length (concat (records seg)) \<and>
       contents (data_file w') = contents (data_file w) @ concat (records seg) \<and>
       sock_out w' =
         sock_out w @ concat (responses (contents (data_file w)) (records seg))) \<or>
      (\<exists>m \<in> append_errors \<union> echo_errors. syslog_out w' = syslog_out w @ [(LOG_ERR, m)]))"

text \<open>
  The invariant of the loop of \<^verbatim>\<open>handle_client\<close> while it is undisturbed, for a
  connection that started with \<open>in0\<close> received, \<open>out0\<close> sent and \<open>store0\<close> in the
  file: with \<open>rx\<close> the bytes received since, the first \<^verbatim>\<open>packet_size\<close> bytes of
  \<^verbatim>\<open>packet_buf\<close> are the unterminated rest of \<open>rx\<close>, the file holds \<open>store0\<close> and
  the complete records of \<open>rx\<close>, and the client was sent the file once after each.
\<close>

definition handler_inv ::
    "bytes \<Rightarrow> bytes \<Rightarrow> bytes \<Rightarrow> bytes option \<Rightarrow> nat \<Rightarrow> world \<Rightarrow> bool" where
  "handler_inv in0 store0 out0 packet_buf packet_size w \<longleftrightarrow>
     (\<exists>rx. sock_in w = in0 @ rx \<and>
        packet_size \<le> length (contents packet_buf) \<and>
        take packet_size (contents packet_buf) = unterminated rx \<and>
        contents (data_file w) = store0 @ concat (records rx) \<and>
        sock_out w = out0 @ concat (responses store0 (records rx)))"

subsection \<open>Worlds and scripts to run the program in\<close>

text \<open>
  \<open>boot cs sc\<close> is the world in which the process starts: no signal yet, no data
  file, the clients \<open>cs\<close> waiting to connect, the environment behaving as \<open>sc\<close>.
  \<open>connection f p sc\<close> is a world in which a client that is going to send \<open>p\<close> has
  just been accepted while the data file is \<open>f\<close>. \<open>interrupted sigs c w\<close> is the
  world after the call \<open>c\<close> has failed with \<^verbatim>\<open>EINTR\<close> in \<open>w\<close> while the signals
  \<open>sigs\<close> were delivered.
\<close>

definition boot :: "bytes list \<Rightarrow> (int list \<times> reply) list \<Rightarrow> world" where
  "boot cs sc =
     \<lparr>exit_requested = False, data_file = None, clients = cs, pending = [], sock_in = [],
      sock_out = [], syslog_out = [], script = sc, trace = []\<rparr>"

definition connection :: "bytes option \<Rightarrow> bytes \<Rightarrow> (int list \<times> reply) list \<Rightarrow> world" where
  "connection f p sc =
     \<lparr>exit_requested = False, data_file = f, clients = [], pending = p, sock_in = [],
      sock_out = [], syslog_out = [], script = sc, trace = []\<rparr>"

definition interrupted :: "int list \<Rightarrow> call \<Rightarrow> world \<Rightarrow> world" where
  "interrupted sigs c w =
     deliver sigs (w\<lparr>script := tl (script w), trace := trace w @ [(c, Fail EINTR)]\<rparr>)"

text \<open>
  Runs of the whole process. In \<open>sigterm_in_accept\<close> the setup succeeds,
  \<^verbatim>\<open>SIGTERM\<close> interrupts the first \<^verbatim>\<open>accept\<close>, the listening socket is closed and
  there is no file to remove; \<open>after_sigterm\<close> is the world this run ends in. In
  \<open>sigaction_fails\<close> the registration of the handler for \<^verbatim>\<open>SIGINT\<close> fails; in
  \<open>bind_fails\<close> the socket is created but cannot be bound, and there is no file. In
  \<open>sigint_in_recv\<close> a client connects and sends one record, which is stored and
  echoed, and \<^verbatim>\<open>SIGINT\<close> arrives while the server waits for more.
\<close>

definition sigterm_in_accept :: "(int list \<times> reply) list" where
  "sigterm_in_accept =
     [([], Ret 0), ([], Ret 0), ([], Ret 3), ([], Ret 0), ([], Ret 0), ([], Ret 0),
      ([SIGTERM], Fail EINTR), ([], Ret 0), ([], Fail ENOENT)]"

definition after_sigterm :: world where
  "after_sigterm =
     \<lparr>exit_requested = True, data_file = None, clients = [], pending = [],
      sock_in = [], sock_out = [],
      syslog_out = [(LOG_INFO, ''Caught signal, exiting'')], script = [],
      trace =
        [(Sigaction 2, Ret 0), (Sigaction 15, Ret 0), (Socket, Ret 3),
         (Setsockopt, Ret 0), (Bind, Ret 0), (Listen, Ret 0),
         (Accept, Fail EINTR), (Close Server_fd, Ret 0),
         (Remove, Fail ENOENT)]\<rparr>"

definition sigaction_fails :: "(int list \<times> reply) list" where
  "sigaction_fails = [([], Fail EOTHER), ([], Fail ENOENT)]"

definition bind_fails :: "(int list \<times> reply) list" where
  "bind_fails =
     [([], Ret 0), ([], Ret 0), ([], Ret 3), ([], Ret 0), ([], Fail EOTHER),
      ([], Ret 0), ([], Fail ENOENT)]"

definition sigint_in_recv :: "(int list \<times> reply) list" where
  "sigint_in_recv =
     replicate 6 ([], Ret 0) @ [([], Ret 4)] @ replicate 11 ([], Ret 1024) @
     [([SIGINT], Fail EINTR), ([], Ret 0), ([], Ret 0), ([], Ret 0)]"

text \<open>
  Connections. In \<open>two_chunks\<close> the client's bytes arrive in two pieces and every
  call succeeds; in \<open>one_record\<close> they arrive at once. \<open>two_connections\<close> is a run
  of the whole process that serves two clients, one after the other, before
  \<^verbatim>\<open>SIGTERM\<close> arrives. In \<open>append_fails_once\<close> the first chunk holds two records
  and the data file cannot be opened for the first. In \<open>send_fails_midway\<close> one
  record is stored, and \<^verbatim>\<open>send\<close> fails after the first byte of the response.
\<close>

definition two_chunks :: "(int list \<times> reply) list" where
  "two_chunks =
     [([], Ret 4)] @ replicate 12 ([], Ret 1024) @ [([], Ret 9)] @
     replicate 12 ([], Ret 1024) @ [([], Ret 0)]"

definition one_record :: "(int list \<times> reply) list" where
  "one_record = replicate 12 ([], Ret 1024)"

definition two_connections :: "(int list \<times> reply) list" where
  "two_connections =
     replicate 6 ([], Ret 0) @
     [([], Ret 4)] @ replicate 12 ([], Ret 1024) @ [([], Ret 0)] @
     [([], Ret 5)] @ replicate 12 ([], Ret 1024) @ [([], Ret 0)] @
     [([SIGTERM], Fail EINTR), ([], Ret 0), ([], Ret 0)]"

definition append_fails_once :: "(int list \<times> reply) list" where
  "append_fails_once =
     [([], Ret 4), ([], Ret 0), ([], Fail EOTHER)] @ replicate 21 ([], Ret 1024)"

definition send_fails_midway :: "(int list \<times> reply) list" where
  "send_fails_midway =
     replicate 7 ([], Ret 9) @ [([], Ret 1), ([], Fail EOTHER)] @ replicate 3 ([], Ret 0)"

text \<open>
  Store operations. In \<open>interrupted_writes\<close> the \<^verbatim>\<open>write\<close> of \<^verbatim>\<open>append_to_file\<close> is
  interrupted twice (the second time by \<^verbatim>\<open>SIGINT\<close>) and writes one byte at first;
  in \<open>interrupted_close\<close> its \<^verbatim>\<open>close\<close> is interrupted; in \<open>interrupted_send\<close> the
  \<^verbatim>\<open>send\<close> of \<^verbatim>\<open>send_file_contents\<close> is interrupted once.
\<close>

definition interrupted_writes :: "(int list \<times> reply) list" where
  "interrupted_writes =
     [([], Ret 3), ([], Fail EINTR), ([], Ret 1), ([SIGINT], Fail EINTR), ([], Ret 7),
      ([], Ret 0)]"

definition interrupted_close :: "(int list \<times> reply) list" where
  "interrupted_close = [([], Ret 3), ([], Ret 1), ([], Fail EINTR)]"

definition interrupted_send :: "(int list \<times> reply) list" where
  "interrupted_send =
     [([], Ret 3), ([], Ret 9), ([], Fail EINTR), ([], Ret 9), ([], Ret 9), ([], Ret 0)]"

section \<open>Facts about the program\<close>

subsection \<open>Every exit path of the process\<close>

lemma accept_loop_later: "accept_loop w = Some w' \<Longrightarrow> later w w'"
proof (induction w rule: accept_loop.induct)
  case (1 w)
  note unfold = accept_loop.simps [of w]
  show ?case
  proof (cases "exit_requested w")
    case True
    with "1.prems" show ?thesis by (simp add: unfold)
  next
    case False
    with "1.prems" obtain x w1 where a: "accept w = Some (x, w1)"
      by (auto simp: unfold split: option.splits)
    have l1: "later w w1"
      using a by (rule accept_later)
    have "later w1 w'"
    proof (cases x)
      case (Some e)
      show ?thesis
      proof (cases "e = EINTR")
        case True
        show ?thesis
        proof (cases "exit_requested w1")
          case True
          with "1.prems" False a Some \<open>e = EINTR\<close> show ?thesis by (simp add: unfold)
        next
          case nx: False
          with "1.prems" False a Some True have "accept_loop w1 = Some w'"
            by (simp add: unfold)
          with "1.IH"(3) [OF False a refl Some _ True] nx show ?thesis by simp
        qed
      next
        case ne: False
        with "1.prems" False a Some
        have "accept_loop (syslog LOG_ERR ''accept() failed'' w1) = Some w'"
          by (simp add: unfold)
        with "1.IH"(4) [OF False a refl Some _ ne] ne
        have "later (syslog LOG_ERR ''accept() failed'' w1) w'" by simp
        then show ?thesis by (rule later_trans [OF later_syslog_self])
      qed
    next
      case None
      let ?wa = "syslog LOG_INFO ''Accepted connection from'' w1"
      from "1.prems" False a None obtain w2 where h: "handle_client ?wa = Some w2"
        by (auto simp: unfold split: option.splits)
      let ?wc = "syslog LOG_INFO ''Closed connection from'' w2"
      from "1.prems" False a None h obtain x3 w3 where c: "sys (Close Client_fd) ?wc = Some (x3, w3)"
        by (auto simp: unfold split: option.splits)
      have l2: "later w1 w3"
        using handle_client_later [OF h] sys_later [OF c]
        by (blast intro: later_trans later_syslog_self)
      have "later w3 w'"
      proof (cases x3)
        case (Fail e)
        with "1.prems" False a None h c
        have "accept_loop (syslog LOG_ERR ''close(client_fd) failed'' w3) = Some w'"
          by (simp add: unfold)
        with "1.IH"(1) [OF False a refl None h c refl Fail]
        have "later (syslog LOG_ERR ''close(client_fd) failed'' w3) w'" by simp
        then show ?thesis by (rule later_trans [OF later_syslog_self])
      next
        case (Ret k)
        with "1.prems" False a None h c have "accept_loop w3 = Some w'"
          by (simp add: unfold)
        with "1.IH"(2) [OF False a refl None h c refl Ret]
        show ?thesis by simp
      qed
      with l2 show ?thesis by (rule later_trans)
    qed
    with l1 show ?thesis by (rule later_trans)
  qed
qed

lemma close_server_later: "close_server have_fd w = Some w' \<Longrightarrow> later w w'"
  by (auto simp: close_server_def split: if_splits option.splits reply.splits
           dest!: sys_later intro: later_syslog)

lemma cleanup_later: "cleanup have_fd ret w = Some (r, w') \<Longrightarrow> later w w'"
  unfolding cleanup_def
  by (auto split: option.splits if_splits
           dest!: close_server_later remove_file_later;
      (blast intro: later_trans later_syslog))

lemma setup_call_later: "setup_call c msg w = Some (ok, w') \<Longrightarrow> later w w'"
  by (auto simp: setup_call_def split: option.splits reply.splits
           dest!: sys_later intro: later_syslog)

lemma setup_call_script:
  "setup_call c msg w = Some (ok, w') \<Longrightarrow>
     \<exists>sigs r. script w = (sigs, r) # script w' \<and> (ok \<longleftrightarrow> succeeded r)"
  by (auto simp: setup_call_def sys_Some deliver_eq syslog_def split: option.splits reply.splits)

lemma main_cases:
  assumes "main w = Some (ret, w')"
  shows "(\<exists>have_fd w0. later w w0 \<and> \<not> setup_succeeds w \<and> ret = - 1 \<and>
            cleanup have_fd (- 1) w0 = Some (ret, w')) \<or>
         (\<exists>w6 w7. later w w6 \<and> setup_succeeds w \<and> ret = 0 \<and> accept_loop w6 = Some w7 \<and>
            cleanup True 0
              (if exit_requested w7 then syslog LOG_INFO ''Caught signal, exiting'' w7 else w7) =
            Some (ret, w'))"
proof -
  have ret: "\<And>h r v. cleanup h r v = Some (ret, w') \<Longrightarrow> ret = r"
    by (auto simp: cleanup_def split: option.splits)
  note defs = main_def
  from assms obtain ok1 w1 where
    s1: "setup_call (Sigaction SIGINT) ''sigaction(SIGINT) failed'' w = Some (ok1, w1)"
    by (auto simp: defs split: option.splits)
  from setup_call_script [OF s1] obtain g1 r1 where
    c1: "script w = (g1, r1) # script w1" "ok1 \<longleftrightarrow> succeeded r1" by blast
  have l1: "later w w1" using s1 by (rule setup_call_later)
  show ?thesis
  proof (cases ok1)
    case False
    with assms s1 have "cleanup False (- 1) w1 = Some (ret, w')" by (simp add: defs)
    moreover have "\<not> setup_succeeds w"
      using c1 False by (auto simp: setup_succeeds_def)
    ultimately show ?thesis using l1 ret by blast
  next
    case ok1: True
    with assms s1 obtain ok2 w2 where
      s2: "setup_call (Sigaction SIGTERM) ''sigaction(SIGTERM) failed'' w1 = Some (ok2, w2)"
      by (auto simp: defs split: option.splits)
    from setup_call_script [OF s2] obtain g2 r2 where
      c2: "script w1 = (g2, r2) # script w2" "ok2 \<longleftrightarrow> succeeded r2" by blast
    have l2: "later w w2" using l1 setup_call_later [OF s2] by (rule later_trans)
    show ?thesis
    proof (cases ok2)
      case False
      with assms s1 ok1 s2 have "cleanup False (- 1) w2 = Some (ret, w')" by (simp add: defs)
      moreover have "\<not> setup_succeeds w"
        using c1 c2 False by (auto simp: setup_succeeds_def)
      ultimately show ?thesis using l2 ret by blast
    next
      case ok2: True
      with assms s1 ok1 s2 obtain ok3 w3 where
        s3: "setup_call Socket ''socket() failed'' w2 = Some (ok3, w3)"
        by (auto simp: defs split: option.splits)
      from setup_call_script [OF s3] obtain g3 r3 where
        c3: "script w2 = (g3, r3) # script w3" "ok3 \<longleftrightarrow> succeeded r3" by blast
      have l3: "later w w3" using l2 setup_call_later [OF s3] by (rule later_trans)
      show ?thesis
      proof (cases ok3)
        case False
        with assms s1 ok1 s2 ok2 s3 have "cleanup False (- 1) w3 = Some (ret, w')"
          by (simp add: defs)
        moreover have "\<not> setup_succeeds w"
          using c1 c2 c3 False by (auto simp: setup_succeeds_def)
        ultimately show ?thesis using l3 ret by blast
      next
        case ok3: True
        with assms s1 ok1 s2 ok2 s3 obtain ok4 w4 where
          s4: "setup_call Setsockopt ''setsockopt(SO_REUSEADDR) failed'' w3 = Some (ok4, w4)"
          by (auto simp: defs split: option.splits)
        from setup_call_script [OF s4] obtain g4 r4 where
          c4: "script w3 = (g4, r4) # script w4" "ok4 \<longleftrightarrow> succeeded r4" by blast
        have l4: "later w w4" using l3 setup_call_later [OF s4] by (rule later_trans)
        show ?thesis
        proof (cases ok4)
          case False
          with assms s1 ok1 s2 ok2 s3 ok3 s4 have "cleanup True (- 1) w4 = Some (ret, w')"
            by (simp add: defs)
          moreover have "\<not> setup_succeeds w"
            using c1 c2 c3 c4 False by (auto simp: setup_succeeds_def)
          ultimately show ?thesis using l4 ret by blast
        next
          case ok4: True
          with assms s1 ok1 s2 ok2 s3 ok3 s4 obtain ok5 w5 where
            s5: "setup_call Bind ''bind() failed'' w4 = Some (ok5, w5)"
            by (auto simp: defs split: option.splits)
          from setup_call_script [OF s5] obtain g5 r5 where
            c5: "script w4 = (g5, r5) # script w5" "ok5 \<longleftrightarrow> succeeded r5" by blast
          have l5: "later w w5" using l4 setup_call_later [OF s5] by (rule later_trans)
          show ?thesis
          proof (cases ok5)
            case False
            with assms s1 ok1 s2 ok2 s3 ok3 s4 ok4 s5
            have "cleanup True (- 1) w5 = Some (ret, w')"
              by (simp add: defs)
            moreover have "\<not> setup_succeeds w"
              using c1 c2 c3 c4 c5 False by (auto simp: setup_succeeds_def)
            ultimately show ?thesis using l5 ret by blast
          next
            case ok5: True
            with assms s1 ok1 s2 ok2 s3 ok3 s4 ok4 s5 obtain ok6 w6 where
              s6: "setup_call Listen ''listen() failed'' w5 = Some (ok6, w6)"
              by (auto simp: defs split: option.splits)
            from setup_call_script [OF s6] obtain g6 r6 where
              c6: "script w5 = (g6, r6) # script w6" "ok6 \<longleftrightarrow> succeeded r6" by blast
            have l6: "later w w6" using l5 setup_call_later [OF s6] by (rule later_trans)
            show ?thesis
            proof (cases ok6)
              case False
              with assms s1 ok1 s2 ok2 s3 ok3 s4 ok4 s5 ok5 s6
              have "cleanup True (- 1) w6 = Some (ret, w')"
                by (simp add: defs)
              moreover have "\<not> setup_succeeds w"
                using c1 c2 c3 c4 c5 c6 False by (auto simp: setup_succeeds_def)
              ultimately show ?thesis using l6 ret by blast
            next
              case ok6: True
              with assms s1 ok1 s2 ok2 s3 ok3 s4 ok4 s5 ok5 s6 obtain w7 where
                al: "accept_loop w6 = Some w7"
                by (auto simp: defs split: option.splits)
              with assms s1 ok1 s2 ok2 s3 ok3 s4 ok4 s5 ok5 s6 ok6
              have cl: "cleanup True 0
                  (if exit_requested w7 then syslog LOG_INFO ''Caught signal, exiting'' w7
                   else w7) = Some (ret, w')"
                by (simp add: defs)
              have "setup_succeeds w"
                using c1 c2 c3 c4 c5 c6 ok1 ok2 ok3 ok4 ok5 ok6
                by (auto simp: setup_succeeds_def)
              with l6 al cl ret [OF cl] show ?thesis by blast
            qed
          qed
        qed
      qed
    qed
  qed
qed

lemma accept_loop_exit: "accept_loop w = Some w' \<Longrightarrow> exit_requested w'"
proof (induction w rule: accept_loop.induct)
  case (1 w)
  note unfold = accept_loop.simps [of w]
  show ?case
  proof (cases "exit_requested w")
    case True
    with "1.prems" show ?thesis by (simp add: unfold)
  next
    case False
    with "1.prems" obtain x w1 where a: "accept w = Some (x, w1)"
      by (auto simp: unfold split: option.splits)
    show ?thesis
    proof (cases x)
      case (Some e)
      show ?thesis
      proof (cases "e = EINTR")
        case True
        show ?thesis
        proof (cases "exit_requested w1")
          case True
          with "1.prems" False a Some \<open>e = EINTR\<close> show ?thesis by (simp add: unfold)
        next
          case nx: False
          with "1.prems" False a Some True have "accept_loop w1 = Some w'"
            by (simp add: unfold)
          with "1.IH"(3) [OF False a refl Some _ True] nx show ?thesis by simp
        qed
      next
        case ne: False
        with "1.prems" False a Some
        have "accept_loop (syslog LOG_ERR ''accept() failed'' w1) = Some w'"
          by (simp add: unfold)
        with "1.IH"(4) [OF False a refl Some _ ne] ne show ?thesis by simp
      qed
    next
      case None
      let ?wa = "syslog LOG_INFO ''Accepted connection from'' w1"
      from "1.prems" False a None obtain w2 where h: "handle_client ?wa = Some w2"
        by (auto simp: unfold split: option.splits)
      let ?wc = "syslog LOG_INFO ''Closed connection from'' w2"
      from "1.prems" False a None h obtain x3 w3 where c: "sys (Close Client_fd) ?wc = Some (x3, w3)"
        by (auto simp: unfold split: option.splits)
      show ?thesis
      proof (cases x3)
        case (Fail e)
        with "1.prems" False a None h c
        have "accept_loop (syslog LOG_ERR ''close(client_fd) failed'' w3) = Some w'"
          by (simp add: unfold)
        with "1.IH"(1) [OF False a refl None h c refl Fail] show ?thesis by simp
      next
        case (Ret k)
        with "1.prems" False a None h c have "accept_loop w3 = Some w'"
          by (simp add: unfold)
        with "1.IH"(2) [OF False a refl None h c refl Ret]
        show ?thesis by simp
      qed
    qed
  qed
qed

lemma main_later: "main w = Some (ret, w') \<Longrightarrow> later w w'"
proof -
  assume m: "main w = Some (ret, w')"
  from main_cases [OF m] show ?thesis
  proof (elim disjE exE conjE)
    fix have_fd w0
    assume "later w w0" "cleanup have_fd (- 1) w0 = Some (ret, w')"
    then show ?thesis by (blast intro: later_trans dest: cleanup_later)
  next
    fix w6 w7
    let ?w8 = "if exit_requested w7 then syslog LOG_INFO ''Caught signal, exiting'' w7 else w7"
    assume a: "later w w6" "accept_loop w6 = Some w7" "cleanup True 0 ?w8 = Some (ret, w')"
    have "later w7 ?w8" by simp
    with a accept_loop_later [OF a(2)] cleanup_later [OF a(3)]
    show ?thesis by (blast intro: later_trans)
  qed
qed

lemma later_flag: "later w w' \<Longrightarrow> flag_tracks_signals w w'"
  by (simp add: later_def flag_tracks_signals_def)

lemma close_server_True:
  assumes "close_server True w = Some w1"
  shows "\<exists>r. trace w1 = trace w @ [(Close Server_fd, r)] \<and>
           syslog_out w1 = syslog_out w @
             (if succeeded r then [] else [(LOG_ERR, ''close(server_fd) failed'')])"
proof -
  from assms obtain r w0 where s: "sys (Close Server_fd) w = Some (r, w0)"
    by (auto simp: close_server_def split: option.splits)
  then have f: "trace w0 = trace w @ [(Close Server_fd, r)]" "syslog_out w0 = syslog_out w"
    by (auto simp: sys_Some deliver_eq)
  show ?thesis
  proof (cases r)
    case (Fail e)
    with assms s have "w1 = syslog LOG_ERR ''close(server_fd) failed'' w0"
      by (simp add: close_server_def)
    with f Fail show ?thesis by simp
  next
    case (Ret k)
    with assms s have "w1 = w0" by (simp add: close_server_def)
    with f Ret show ?thesis by simp
  qed
qed

lemma cleanup_Some:
  assumes "cleanup have_fd r0 w = Some (ret, w')"
  shows "ret = r0 \<and>
         (\<exists>w1 r. close_server have_fd w = Some w1 \<and>
            trace w' = trace w1 @ [(Remove, r)] \<and>
            syslog_out w' = syslog_out w1 @
              (if removal_error r then [(LOG_ERR, ''remove failed'')] else []) \<and>
            (succeeded r \<longrightarrow> data_file w' = None))"
proof -
  from assms obtain w1 where c: "close_server have_fd w = Some w1"
    by (auto simp: cleanup_def split: option.splits)
  from assms c obtain x w2 where r: "remove_file w1 = Some (x, w2)"
    and w': "w' = (case x of Some e \<Rightarrow> if e \<noteq> ENOENT then syslog LOG_ERR ''remove failed'' w2 else w2
                   | None \<Rightarrow> w2)" and ret: "ret = r0"
    by (auto simp: cleanup_def split: option.splits)
  from r obtain r2 w3 where s: "sys Remove w1 = Some (r2, w3)"
    by (auto simp: remove_file_def split: option.splits)
  then have f: "trace w3 = trace w1 @ [(Remove, r2)]" "syslog_out w3 = syslog_out w1"
    "data_file w3 = data_file w1"
    by (auto simp: sys_Some deliver_eq)
  have "trace w' = trace w1 @ [(Remove, r2)] \<and>
            syslog_out w' = syslog_out w1 @
              (if removal_error r2 then [(LOG_ERR, ''remove failed'')] else []) \<and>
            (succeeded r2 \<longrightarrow> data_file w' = None)"
  proof (cases r2)
    case (Fail e)
    with r s have "x = Some e" "w2 = w3" by (simp_all add: remove_file_def)
    with w' f Fail show ?thesis by simp
  next
    case (Ret k)
    show ?thesis
    proof (cases "data_file w3 = None")
      case True
      with r s Ret have "x = Some ENOENT" "w2 = w3" by (simp_all add: remove_file_def)
      with w' f Ret True show ?thesis by simp
    next
      case False
      with r s Ret have "x = None" "w2 = w3\<lparr>data_file := None\<rparr>"
        by (simp_all add: remove_file_def)
      with w' f Ret show ?thesis by simp
    qed
  qed
  with c ret show ?thesis by blast
qed

lemma main_outcome:
  assumes "main w = Some (ret, w')"
  shows "(ret = 0 \<longleftrightarrow> setup_succeeds w) \<and>
         (setup_succeeds w \<longrightarrow>
            exit_requested w' \<and>
            (\<exists>t l r1 r2.
               trace w' = trace w @ t @ [(Close Server_fd, r1), (Remove, r2)] \<and>
               syslog_out w' = syslog_out w @ l @ [(LOG_INFO, ''Caught signal, exiting'')] @
                 (if succeeded r1 then [] else [(LOG_ERR, ''close(server_fd) failed'')]) @
                 (if removal_error r2 then [(LOG_ERR, ''remove failed'')] else []) \<and>
               (succeeded r2 \<longrightarrow> data_file w' = None)))"
proof -
  from main_cases [OF assms] show ?thesis
  proof (elim disjE exE conjE)
    fix have_fd w0
    assume "\<not> setup_succeeds w" "ret = - 1"
    then show ?thesis by simp
  next
    fix w6 w7
    let ?w8 = "if exit_requested w7 then syslog LOG_INFO ''Caught signal, exiting'' w7 else w7"
    assume a: "later w w6" "setup_succeeds w" "ret = 0" "accept_loop w6 = Some w7"
      "cleanup True 0 ?w8 = Some (ret, w')"
    have ex: "exit_requested w7" using a(4) by (rule accept_loop_exit)
    then have w8: "?w8 = syslog LOG_INFO ''Caught signal, exiting'' w7" by simp
    have "later w w7" using a(1) accept_loop_later [OF a(4)] by (rule later_trans)
    then obtain t l where tl: "trace w7 = trace w @ t" "syslog_out w7 = syslog_out w @ l"
      by (auto simp: later_def)
    from cleanup_Some [OF a(5)] obtain w1 r2 where
      c: "close_server True ?w8 = Some w1" and
      r: "trace w' = trace w1 @ [(Remove, r2)]"
         "syslog_out w' = syslog_out w1 @
              (if removal_error r2 then [(LOG_ERR, ''remove failed'')] else [])"
         "succeeded r2 \<longrightarrow> data_file w' = None"
      by blast
    from close_server_True [OF c] obtain r1 where
      c1: "trace w1 = trace ?w8 @ [(Close Server_fd, r1)]"
          "syslog_out w1 = syslog_out ?w8 @
                 (if succeeded r1 then [] else [(LOG_ERR, ''close(server_fd) failed'')])"
      by blast
    have "exit_requested w'"
      using ex later_exit [OF cleanup_later [OF a(5)]] by simp
    moreover have "trace w' = trace w @ t @ [(Close Server_fd, r1), (Remove, r2)]"
      using r(1) c1(1) tl(1) ex by simp
    moreover have "syslog_out w' = syslog_out w @ l @ [(LOG_INFO, ''Caught signal, exiting'')] @
                 (if succeeded r1 then [] else [(LOG_ERR, ''close(server_fd) failed'')]) @
                 (if removal_error r2 then [(LOG_ERR, ''remove failed'')] else [])"
      using r(2) c1(2) tl(2) ex by simp
    ultimately show ?thesis using a(2,3) r(3) by blast
  qed
qed

lemma cleanup_returns:
  assumes "2 \<le> length (script w)"
  shows "\<exists>w'. cleanup have_fd ret w = Some (ret, w')"
proof -
  from assms obtain g1 r1 g2 r2 rest where sc: "script w = (g1, r1) # (g2, r2) # rest"
    by (cases "script w"; cases "tl (script w)") auto
  have "\<exists>w1. close_server have_fd w = Some w1 \<and> script w1 \<noteq> []"
  proof (cases have_fd)
    case False
    with sc show ?thesis by (simp add: close_server_def)
  next
    case True
    with sc show ?thesis
      by (cases r1) (simp_all add: close_server_def sys_def deliver_eq)
  qed
  then obtain w1 where c: "close_server have_fd w = Some w1" and n: "script w1 \<noteq> []"
    by blast
  from n obtain g r rest' where "script w1 = (g, r) # rest'"
    by (cases "script w1") auto
  then have "\<exists>x w2. remove_file w1 = Some (x, w2)"
    by (cases r) (simp_all add: remove_file_def sys_def)
  with c show ?thesis
    by (auto simp: cleanup_def split: option.splits)
qed

subsection \<open>Outcome of the store operations\<close>

lemma same_connection_refl [simp]: "same_connection w w"
  by (simp add: same_connection_def)

lemma same_connection_trans:
  "same_connection w w1 \<Longrightarrow> same_connection w1 w2 \<Longrightarrow> same_connection w w2"
  by (simp add: same_connection_def)

lemma same_connection_syslog [simp]:
  "same_connection w (syslog p m w') = same_connection w w'"
  "same_connection (syslog p m w) w' = same_connection w w'"
  by (simp_all add: same_connection_def)

lemma same_connection_update [simp]:
  "same_connection w (w'\<lparr>data_file := f\<rparr>) = same_connection w w'"
  "same_connection w (w'\<lparr>sock_out := bs\<rparr>) = same_connection w w'"
  by (simp_all add: same_connection_def)

lemma sys_call:
  "sys c w = Some (r, w') \<Longrightarrow>
     trace w' = trace w @ [(c, r)] \<and> syslog_out w' = syslog_out w \<and>
     data_file w' = data_file w \<and> sock_out w' = sock_out w \<and> same_connection w w'"
  by (auto simp: sys_Some deliver_eq same_connection_def)

lemma write_fd_call:
  assumes "write_fd buf w = Some (x, w')"
  shows "sock_out w' = sock_out w \<and> same_connection w w' \<and> syslog_out w' = syslog_out w \<and>
         (\<exists>r. trace w' = trace w @ [(Write, r)] \<and>
            (case x of
               Inl e \<Rightarrow> r = Fail e \<and> data_file w' = data_file w
             | Inr n \<Rightarrow> succeeded r \<and>
                 data_file w' = Some (contents (data_file w) @ take n buf)))"
  using assms
  by (auto simp: write_fd_def Let_def min_def split: option.splits reply.splits dest!: sys_call)

lemma write_loop_Some:
  assumes "write_loop data written w = Some (ok, w')"
  shows "sock_out w' = sock_out w \<and> same_connection w w' \<and>
         (data_file w \<noteq> None \<longrightarrow> data_file w' \<noteq> None) \<and>
         (\<exists>t. trace w' = trace w @ t \<and>
            (if ok then
               (\<forall>x \<in> set t. fst x = Write \<and> retried (snd x)) \<and>
               contents (data_file w') = contents (data_file w) @ drop written data \<and>
               syslog_out w' = syslog_out w
             else
               (\<exists>e. e \<noteq> EINTR \<and> (Write, Fail e) \<in> set t) \<and>
               syslog_out w' = syslog_out w @ [(LOG_ERR, ''write failed'')]))"
  using assms
proof (induction data written w rule: write_loop.induct)
  case (1 data written w)
  note unfold = write_loop.simps [of data written w]
  show ?case
  proof (cases "written < length data")
    case False
    with "1.prems" have "ok" "w' = w" by (simp_all add: unfold)
    with False show ?thesis by simp
  next
    case True
    with "1.prems" obtain x w1 where s: "write_fd (drop written data) w = Some (x, w1)"
      by (auto simp: unfold split: option.splits)
    from write_fd_call [OF s] obtain r where
      f1: "sock_out w1 = sock_out w" "same_connection w w1" "syslog_out w1 = syslog_out w"
        "trace w1 = trace w @ [(Write, r)]" and
      x: "case x of Inl e \<Rightarrow> r = Fail e \<and> data_file w1 = data_file w
          | Inr n \<Rightarrow> succeeded r \<and>
              data_file w1 = Some (contents (data_file w) @ take n (drop written data))"
      by blast
    show ?thesis
    proof (cases x)
      case (Inr n)
      with "1.prems" True s have rec: "write_loop data (written + n) w1 = Some (ok, w')"
        by (simp add: unfold)
      from x Inr have d: "succeeded r"
        "data_file w1 = Some (contents (data_file w) @ take n (drop written data))"
        by simp_all
      have app: "take n (drop written data) @ drop (written + n) data = drop written data"
        by (metis add.commute append_take_drop_id drop_drop)
      from "1.IH"(2) [OF True s refl Inr rec] obtain t where
        ih: "sock_out w' = sock_out w1" "same_connection w1 w'"
          "data_file w1 \<noteq> None \<longrightarrow> data_file w' \<noteq> None"
          "trace w' = trace w1 @ t"
          "if ok then
               (\<forall>x \<in> set t. fst x = Write \<and> retried (snd x)) \<and>
               contents (data_file w') = contents (data_file w1) @ drop (written + n) data \<and>
               syslog_out w' = syslog_out w1
             else
               (\<exists>e. e \<noteq> EINTR \<and> (Write, Fail e) \<in> set t) \<and>
               syslog_out w' = syslog_out w1 @ [(LOG_ERR, ''write failed'')]"
        by blast
      have r: "retried r" using d(1) by (cases r) simp_all
      have A: "sock_out w' = sock_out w" using ih(1) f1(1) by simp
      have B: "same_connection w w'" using f1(2) ih(2) by (rule same_connection_trans)
      have C: "data_file w \<noteq> None \<longrightarrow> data_file w' \<noteq> None" using ih(3) d(2) by simp
      have "trace w' = trace w @ ((Write, r) # t)"
        using ih(4) f1(4) by simp
      moreover have "if ok then
               (\<forall>x \<in> set ((Write, r) # t). fst x = Write \<and> retried (snd x)) \<and>
               contents (data_file w') = contents (data_file w) @ drop written data \<and>
               syslog_out w' = syslog_out w
             else
               (\<exists>e. e \<noteq> EINTR \<and> (Write, Fail e) \<in> set ((Write, r) # t)) \<and>
               syslog_out w' = syslog_out w @ [(LOG_ERR, ''write failed'')]"
        using ih(5) f1(3) d(2) r app by (auto simp: contents_def)
      ultimately have D: "\<exists>t. trace w' = trace w @ t \<and>
            (if ok then
               (\<forall>x \<in> set t. fst x = Write \<and> retried (snd x)) \<and>
               contents (data_file w') = contents (data_file w) @ drop written data \<and>
               syslog_out w' = syslog_out w
             else
               (\<exists>e. e \<noteq> EINTR \<and> (Write, Fail e) \<in> set t) \<and>
               syslog_out w' = syslog_out w @ [(LOG_ERR, ''write failed'')])"
        by (rule exI [of _ "(Write, r) # t", OF conjI])
      show ?thesis by (rule conjI [OF A conjI [OF B conjI [OF C D]]])
    next
      case (Inl e)
      with x have d: "r = Fail e" "data_file w1 = data_file w" by simp_all
      show ?thesis
      proof (cases "e = EINTR")
        case eintr: True
        with "1.prems" True s Inl have rec: "write_loop data written w1 = Some (ok, w')"
          by (simp add: unfold)
        from "1.IH"(1) [OF True s refl Inl eintr rec] obtain t where
          ih: "sock_out w' = sock_out w1" "same_connection w1 w'"
            "data_file w1 \<noteq> None \<longrightarrow> data_file w' \<noteq> None"
            "trace w' = trace w1 @ t"
            "if ok then
               (\<forall>x \<in> set t. fst x = Write \<and> retried (snd x)) \<and>
               contents (data_file w') = contents (data_file w1) @ drop written data \<and>
               syslog_out w' = syslog_out w1
             else
               (\<exists>e. e \<noteq> EINTR \<and> (Write, Fail e) \<in> set t) \<and>
               syslog_out w' = syslog_out w1 @ [(LOG_ERR, ''write failed'')]"
          by blast
        have A: "sock_out w' = sock_out w" using ih(1) f1(1) by simp
        have B: "same_connection w w'" using f1(2) ih(2) by (rule same_connection_trans)
        have C: "data_file w \<noteq> None \<longrightarrow> data_file w' \<noteq> None" using ih(3) d(2) by simp
        have "trace w' = trace w @ ((Write, r) # t)"
          using ih(4) f1(4) by simp
        moreover have "if ok then
               (\<forall>x \<in> set ((Write, r) # t). fst x = Write \<and> retried (snd x)) \<and>
               contents (data_file w') = contents (data_file w) @ drop written data \<and>
               syslog_out w' = syslog_out w
             else
               (\<exists>e. e \<noteq> EINTR \<and> (Write, Fail e) \<in> set ((Write, r) # t)) \<and>
               syslog_out w' = syslog_out w @ [(LOG_ERR, ''write failed'')]"
        proof (cases ok)
          case True
          with ih(5) have "\<forall>x \<in> set t. fst x = Write \<and> retried (snd x)"
            "contents (data_file w') = contents (data_file w1) @ drop written data"
            "syslog_out w' = syslog_out w1" by simp_all
          with True f1(3) d eintr show ?thesis by simp
        next
          case False
          with ih(5) obtain e' where "e' \<noteq> EINTR" "(Write, Fail e') \<in> set t"
            "syslog_out w' = syslog_out w1 @ [(LOG_ERR, ''write failed'')]" by auto
          with False f1(3) show ?thesis by auto
        qed
        ultimately have D: "\<exists>t. trace w' = trace w @ t \<and>
            (if ok then
               (\<forall>x \<in> set t. fst x = Write \<and> retried (snd x)) \<and>
               contents (data_file w') = contents (data_file w) @ drop written data \<and>
               syslog_out w' = syslog_out w
             else
               (\<exists>e. e \<noteq> EINTR \<and> (Write, Fail e) \<in> set t) \<and>
               syslog_out w' = syslog_out w @ [(LOG_ERR, ''write failed'')])"
          by (rule exI [of _ "(Write, r) # t", OF conjI])
        show ?thesis by (rule conjI [OF A conjI [OF B conjI [OF C D]]])
      next
        case other: False
        let ?w1 = "syslog LOG_ERR ''write failed'' w1"
        from "1.prems" True s Inl other obtain x2 where
          c: "sys (Close Append_fd) ?w1 = Some (x2, w')" and ok: "\<not> ok"
          by (auto simp: unfold split: option.splits)
        from sys_call [OF c] have
          f2: "trace w' = trace ?w1 @ [(Close Append_fd, x2)]" "syslog_out w' = syslog_out ?w1"
            "data_file w' = data_file ?w1" "sock_out w' = sock_out ?w1" "same_connection ?w1 w'"
          by simp_all
        have A: "sock_out w' = sock_out w" using f2(4) f1(1) by simp
        have B: "same_connection w w'"
          using f1(2) f2(5) by (auto intro: same_connection_trans)
        have C: "data_file w \<noteq> None \<longrightarrow> data_file w' \<noteq> None" using f2(3) d(2) by simp
        have "trace w' = trace w @ [(Write, Fail e), (Close Append_fd, x2)]"
          using f2(1) f1(4) d(1) by simp
        moreover have "if ok then
               (\<forall>x \<in> set [(Write, Fail e), (Close Append_fd, x2)].
                  fst x = Write \<and> retried (snd x)) \<and>
               contents (data_file w') = contents (data_file w) @ drop written data \<and>
               syslog_out w' = syslog_out w
             else
               (\<exists>e'. e' \<noteq> EINTR \<and>
                  (Write, Fail e') \<in> set [(Write, Fail e), (Close Append_fd, x2)]) \<and>
               syslog_out w' = syslog_out w @ [(LOG_ERR, ''write failed'')]"
          using ok other f2(2) f1(3) by auto
        ultimately have D: "\<exists>t. trace w' = trace w @ t \<and>
            (if ok then
               (\<forall>x \<in> set t. fst x = Write \<and> retried (snd x)) \<and>
               contents (data_file w') = contents (data_file w) @ drop written data \<and>
               syslog_out w' = syslog_out w
             else
               (\<exists>e. e \<noteq> EINTR \<and> (Write, Fail e) \<in> set t) \<and>
               syslog_out w' = syslog_out w @ [(LOG_ERR, ''write failed'')])"
          by (rule exI [of _ "[(Write, Fail e), (Close Append_fd, x2)]", OF conjI])
        show ?thesis by (rule conjI [OF A conjI [OF B conjI [OF C D]]])
      qed
    qed
  qed
qed

lemma open_append_call:
  assumes "open_append w = Some (x, w')"
  shows "sock_out w' = sock_out w \<and> same_connection w w' \<and> syslog_out w' = syslog_out w \<and>
         (\<exists>r. trace w' = trace w @ [(Open_append, r)] \<and>
            (case x of
               Some e \<Rightarrow> r = Fail e \<and> data_file w' = data_file w
             | None \<Rightarrow> succeeded r \<and> data_file w' = Some (contents (data_file w))))"
  using assms
  by (auto simp: open_append_def split: option.splits reply.splits dest!: sys_call)

lemma append_success_no_failure: "append_success t \<Longrightarrow> \<not> append_failure t"
proof -
  assume "append_success t"
  then obtain ro ws rc where t: "t = (Open_append, ro) # ws @ [(Close Append_fd, rc)]"
    and s: "succeeded ro" "succeeded rc" and ws: "\<forall>x \<in> set ws. fst x = Write \<and> retried (snd x)"
    unfolding append_success_def by blast
  have "(c, Fail e) \<in> set t \<Longrightarrow> c = Write \<and> e = EINTR" for c e
    using t s ws by (cases ro; cases rc) force+
  then show ?thesis unfolding append_failure_def by blast
qed

lemma append_to_file_Some:
  assumes "append_to_file data w = Some (r, w')"
  shows "sock_out w' = sock_out w \<and> same_connection w w' \<and>
         (\<exists>t. trace w' = trace w @ t \<and>
            (if r = 0 then
               append_success t \<and> data_file w' = Some (contents (data_file w) @ data) \<and>
               syslog_out w' = syslog_out w
             else
               r = - 1 \<and> append_failure t \<and>
               (\<exists>m \<in> append_errors. syslog_out w' = syslog_out w @ [(LOG_ERR, m)])))"
proof -
  from assms obtain x w1 where o: "open_append w = Some (x, w1)"
    by (auto simp: append_to_file_def split: option.splits)
  from open_append_call [OF o] obtain ro where
    f1: "sock_out w1 = sock_out w" "same_connection w w1" "syslog_out w1 = syslog_out w"
      "trace w1 = trace w @ [(Open_append, ro)]" and
    x: "case x of Some e \<Rightarrow> ro = Fail e \<and> data_file w1 = data_file w
        | None \<Rightarrow> succeeded ro \<and> data_file w1 = Some (contents (data_file w))"
    by blast
  show ?thesis
  proof (cases x)
    case (Some e)
    with assms o have r: "r = - 1" "w' = syslog LOG_ERR ''open failed'' w1"
      by (simp_all add: append_to_file_def)
    from x Some have ro: "ro = Fail e" by simp
    have "trace w' = trace w @ [(Open_append, ro)]" using r f1 by simp
    moreover have "append_failure [(Open_append, ro)]"
      using ro by (auto simp: append_failure_def)
    moreover have "\<exists>m \<in> append_errors. syslog_out w' = syslog_out w @ [(LOG_ERR, m)]"
      using r f1 by (simp add: append_errors_def)
    ultimately have "\<exists>t. trace w' = trace w @ t \<and>
            (if r = 0 then
               append_success t \<and> data_file w' = Some (contents (data_file w) @ data) \<and>
               syslog_out w' = syslog_out w
             else
               r = - 1 \<and> append_failure t \<and>
               (\<exists>m \<in> append_errors. syslog_out w' = syslog_out w @ [(LOG_ERR, m)]))"
      using r(1) by (intro exI [of _ "[(Open_append, ro)]"]) simp
    then show ?thesis using r f1 by simp
  next
    case None
    with x have ro: "succeeded ro" and d1: "data_file w1 = Some (contents (data_file w))"
      by simp_all
    from assms o None obtain ok w2 where wl: "write_loop data 0 w1 = Some (ok, w2)"
      by (auto simp: append_to_file_def split: option.splits)
    from write_loop_Some [OF wl] obtain ws where
      f2: "sock_out w2 = sock_out w1" "same_connection w1 w2"
        "data_file w1 \<noteq> None \<longrightarrow> data_file w2 \<noteq> None" "trace w2 = trace w1 @ ws" and
      o2: "if ok then
             (\<forall>x \<in> set ws. fst x = Write \<and> retried (snd x)) \<and>
             contents (data_file w2) = contents (data_file w1) @ drop 0 data \<and>
             syslog_out w2 = syslog_out w1
           else
             (\<exists>e. e \<noteq> EINTR \<and> (Write, Fail e) \<in> set ws) \<and>
             syslog_out w2 = syslog_out w1 @ [(LOG_ERR, ''write failed'')]"
      by blast
    have c12: "same_connection w w2"
      using f1(2) f2(2) by (rule same_connection_trans)
    show ?thesis
    proof (cases ok)
      case False
      with assms o None wl have r: "r = - 1" "w' = w2"
        by (simp_all add: append_to_file_def)
      from o2 False obtain e where e: "e \<noteq> EINTR" "(Write, Fail e) \<in> set ws"
        and l: "syslog_out w2 = syslog_out w1 @ [(LOG_ERR, ''write failed'')]" by auto
      have "trace w' = trace w @ ((Open_append, ro) # ws)" using r f1 f2 by simp
      moreover have "append_failure ((Open_append, ro) # ws)"
        using e by (auto simp: append_failure_def)
      moreover have "\<exists>m \<in> append_errors. syslog_out w' = syslog_out w @ [(LOG_ERR, m)]"
        using r f1 l by (simp add: append_errors_def)
      ultimately have "\<exists>t. trace w' = trace w @ t \<and>
            (if r = 0 then
               append_success t \<and> data_file w' = Some (contents (data_file w) @ data) \<and>
               syslog_out w' = syslog_out w
             else
               r = - 1 \<and> append_failure t \<and>
               (\<exists>m \<in> append_errors. syslog_out w' = syslog_out w @ [(LOG_ERR, m)]))"
        using r(1) by (intro exI [of _ "(Open_append, ro) # ws"]) simp
      then show ?thesis using r f1 f2 c12 by simp
    next
      case True
      with o2 have ws: "\<forall>x \<in> set ws. fst x = Write \<and> retried (snd x)"
        and d2: "contents (data_file w2) = contents (data_file w1) @ data"
        and l2: "syslog_out w2 = syslog_out w1" by simp_all
      from d1 d2 f2(3) have d2': "data_file w2 = Some (contents (data_file w) @ data)"
        by (cases "data_file w2") (simp_all add: contents_def)
      from assms o None wl True obtain rc w3 where c: "sys (Close Append_fd) w2 = Some (rc, w3)"
        by (auto simp: append_to_file_def split: option.splits)
      from sys_call [OF c] have
        f3: "trace w3 = trace w2 @ [(Close Append_fd, rc)]" "syslog_out w3 = syslog_out w2"
          "data_file w3 = data_file w2" "sock_out w3 = sock_out w2" "same_connection w2 w3"
        by simp_all
      have c13: "same_connection w w3"
        using c12 f3(5) by (rule same_connection_trans)
      let ?t = "(Open_append, ro) # ws @ [(Close Append_fd, rc)]"
      show ?thesis
      proof (cases rc)
        case (Fail e)
        with assms o None wl True c
        have r: "r = - 1" "w' = syslog LOG_ERR ''close data file failed'' w3"
          by (simp_all add: append_to_file_def)
        have "trace w' = trace w @ ?t" using r f1 f2 f3 by simp
        moreover have "append_failure ?t"
          using Fail by (auto simp: append_failure_def)
        moreover have "\<exists>m \<in> append_errors. syslog_out w' = syslog_out w @ [(LOG_ERR, m)]"
          using r f1 l2 f3 by (simp add: append_errors_def)
        ultimately have "\<exists>t. trace w' = trace w @ t \<and>
            (if r = 0 then
               append_success t \<and> data_file w' = Some (contents (data_file w) @ data) \<and>
               syslog_out w' = syslog_out w
             else
               r = - 1 \<and> append_failure t \<and>
               (\<exists>m \<in> append_errors. syslog_out w' = syslog_out w @ [(LOG_ERR, m)]))"
          using r(1) by (intro exI [of _ ?t]) simp
        then show ?thesis using r f1 f2 f3 c13 by simp
      next
        case (Ret k)
        with assms o None wl True c have r: "r = 0" "w' = w3"
          by (simp_all add: append_to_file_def)
        have "trace w' = trace w @ ?t" using r f1 f2 f3 by simp
        moreover have "append_success ?t"
          using Ret ro ws unfolding append_success_def by (intro exI [of _ ro] exI [of _ ws] exI [of _ rc]) simp
        moreover have "data_file w' = Some (contents (data_file w) @ data)"
          using r f3 d2' by simp
        moreover have "syslog_out w' = syslog_out w" using r f1 l2 f3 by simp
        ultimately have "\<exists>t. trace w' = trace w @ t \<and>
            (if r = 0 then
               append_success t \<and> data_file w' = Some (contents (data_file w) @ data) \<and>
               syslog_out w' = syslog_out w
             else
               r = - 1 \<and> append_failure t \<and>
               (\<exists>m \<in> append_errors. syslog_out w' = syslog_out w @ [(LOG_ERR, m)]))"
          using r(1) by (intro exI [of _ ?t]) simp
        then show ?thesis using r f1 f2 f3 c13 by simp
      qed
    qed
  qed
qed

lemma write_loop_returns:
  "length data - written \<le> n \<Longrightarrow> n \<le> length (script w) \<Longrightarrow>
   \<forall>e \<in> set (take n (script w)). moves (snd e) \<Longrightarrow>
   \<exists>w' j. write_loop data written w = Some (True, w') \<and> j \<le> n \<and> script w' = drop j (script w)"
proof (induction n arbitrary: written w)
  case 0
  then have "write_loop data written w = Some (True, w)"
    by (simp add: write_loop.simps [of data written w])
  then show ?case by (intro exI [of _ w] exI [of _ 0]) simp
next
  case (Suc n)
  show ?case
  proof (cases "written < length data")
    case False
    then have "write_loop data written w = Some (True, w)"
      by (simp add: write_loop.simps [of data written w])
    then show ?thesis by (intro exI [of _ w] exI [of _ 0]) simp
  next
    case True
    from Suc.prems(2) obtain sg r rest where sc: "script w = (sg, r) # rest"
      by (cases "script w") auto
    with Suc.prems(3) have "moves r" by simp
    then obtain k where r: "r = Ret k" "0 < k" by (cases r) auto
    define m where "m = min k (length (drop written data))"
    define w1 where "w1 = (deliver sg (w\<lparr>script := rest, trace := trace w @ [(Write, r)]\<rparr>))
        \<lparr>data_file := Some (contents (data_file w) @ take m (drop written data))\<rparr>"
    have wf: "write_fd (drop written data) w = Some (Inr m, w1)"
      using sc r by (simp add: write_fd_def sys_def Let_def m_def w1_def deliver_eq)
    have m: "0 < m" using r(2) True by (simp add: m_def)
    have s1: "script w1 = rest" by (simp add: w1_def deliver_eq)
    have "length data - (written + m) \<le> n" using Suc.prems(1) m by simp
    moreover have "n \<le> length (script w1)" using Suc.prems(2) sc s1 by simp
    moreover have "\<forall>e \<in> set (take n (script w1)). moves (snd e)"
      using Suc.prems(3) sc s1 by simp
    ultimately obtain w' j where
      ih: "write_loop data (written + m) w1 = Some (True, w')" "j \<le> n" "script w' = drop j (script w1)"
      using Suc.IH by blast
    have "write_loop data written w = Some (True, w')"
      using True wf ih(1) by (simp add: write_loop.simps [of data written w])
    moreover have "Suc j \<le> Suc n" using ih(2) by simp
    moreover have "script w' = drop (Suc j) (script w)" using ih(3) s1 sc by simp
    ultimately show ?thesis by blast
  qed
qed

lemma append_to_file_returns:
  assumes "length data + 2 \<le> length (script w)"
    and "\<forall>e \<in> set (take (length data + 2) (script w)). moves (snd e)"
  shows "\<exists>w'. append_to_file data w = Some (0, w')"
proof -
  from assms(1) obtain sg r rest where sc: "script w = (sg, r) # rest"
    by (cases "script w") auto
  with assms(2) have "moves r" by simp
  then obtain k where r: "r = Ret k" by (cases r) auto
  define w1 where "w1 = (deliver sg (w\<lparr>script := rest, trace := trace w @ [(Open_append, r)]\<rparr>))
        \<lparr>data_file := Some (contents (data_file w))\<rparr>"
  have o: "open_append w = Some (None, w1)"
    using sc r by (simp add: open_append_def sys_def w1_def deliver_eq)
  have s1: "script w1 = rest" by (simp add: w1_def deliver_eq)
  have all: "\<forall>e \<in> set (take (length data + 1) rest). moves (snd e)"
    using assms(2) sc by simp
  have len: "length data + 1 \<le> length rest" using assms(1) sc by simp
  have "set (take (length data) rest) \<subseteq> set (take (length data + 1) rest)"
    by (rule set_take_subset_set_take) simp
  with all s1 have "\<forall>e \<in> set (take (length data) (script w1)). moves (snd e)"
    by blast
  with len s1 obtain w2 j where
    wl: "write_loop data 0 w1 = Some (True, w2)" "j \<le> length data" "script w2 = drop j rest"
    using write_loop_returns [of data 0 "length data" w1] by auto
  from wl(2) len have j: "j < length rest" by simp
  then obtain sg2 r2 where d: "drop j rest = (sg2, r2) # drop (Suc j) rest"
    by (metis Cons_nth_drop_Suc surj_pair)
  have "j < length (take (length data + 1) rest)" using j wl(2) by simp
  then have "take (length data + 1) rest ! j \<in> set (take (length data + 1) rest)"
    by (rule nth_mem)
  moreover have "take (length data + 1) rest ! j = rest ! j" using wl(2) by simp
  moreover have "rest ! j = (sg2, r2)"
    using d j by (metis Cons_nth_drop_Suc list.inject)
  ultimately have "moves r2" using all by force
  then obtain k2 where r2: "r2 = Ret k2" by (cases r2) auto
  have "\<exists>w3. sys (Close Append_fd) w2 = Some (Ret k2, w3)"
    using wl(3) d r2 by (simp add: sys_def)
  with o wl(1) show ?thesis
    by (auto simp: append_to_file_def)
qed

lemma send_call:
  assumes "send buf w = Some (x, w')"
  shows "data_file w' = data_file w \<and> same_connection w w' \<and> syslog_out w' = syslog_out w \<and>
         (case x of
            Inl e \<Rightarrow> sock_out w' = sock_out w
          | Inr n \<Rightarrow> sock_out w' = sock_out w @ take n buf)"
  using assms
  by (auto simp: send_def Let_def split: option.splits reply.splits dest!: sys_call)

lemma read_fd_call:
  assumes "read_fd off count w = Some (x, w')" and "0 < count"
  shows "data_file w' = data_file w \<and> same_connection w w' \<and> syslog_out w' = syslog_out w \<and>
         sock_out w' = sock_out w \<and>
         (case x of
            Inl e \<Rightarrow> True
          | Inr buf \<Rightarrow> \<exists>k. 0 < k \<and> buf = take k (drop off (contents (data_file w))))"
proof -
  from assms obtain r w1 where s: "sys Read w = Some (r, w1)"
    by (auto simp: read_fd_def split: option.splits)
  note f = sys_call [OF s]
  show ?thesis
  proof (cases r)
    case (Fail e)
    with assms s f show ?thesis by (auto simp: read_fd_def)
  next
    case (Ret k)
    with assms s have x: "x = Inr (take (min (max 1 k) count) (drop off (contents (data_file w1))))"
      and w': "w' = w1" by (auto simp: read_fd_def)
    have "0 < min (max 1 k) count" using assms(2) by simp
    then have "\<exists>j. 0 < j \<and> take (min (max 1 k) count) (drop off (contents (data_file w))) =
        take j (drop off (contents (data_file w)))"
      by blast
    with x w' f show ?thesis by simp
  qed
qed

lemma open_read_call:
  assumes "open_read w = Some (x, w')"
  shows "data_file w' = data_file w \<and> same_connection w w' \<and> syslog_out w' = syslog_out w \<and>
         sock_out w' = sock_out w"
  using assms
  by (auto simp: open_read_def split: option.splits reply.splits if_splits dest!: sys_call)

lemma send_loop_Some:
  assumes "send_loop buf sent_total w = Some (ok, w')"
  shows "data_file w' = data_file w \<and> same_connection w w' \<and>
         (if ok then sock_out w' = sock_out w @ drop sent_total buf \<and>
                     syslog_out w' = syslog_out w
          else syslog_out w' = syslog_out w @ [(LOG_ERR, ''send() failed'')])"
  using assms
proof (induction buf sent_total w rule: send_loop.induct)
  case (1 buf sent_total w)
  note unfold = send_loop.simps [of buf sent_total w]
  show ?case
  proof (cases "sent_total < length buf")
    case False
    with "1.prems" have "ok" "w' = w" by (simp_all add: unfold)
    with False show ?thesis by simp
  next
    case True
    with "1.prems" obtain x w1 where s: "send (drop sent_total buf) w = Some (x, w1)"
      by (auto simp: unfold split: option.splits)
    from send_call [OF s] have
      f1: "data_file w1 = data_file w" "same_connection w w1" "syslog_out w1 = syslog_out w"
      and x: "case x of Inl e \<Rightarrow> sock_out w1 = sock_out w
              | Inr n \<Rightarrow> sock_out w1 = sock_out w @ take n (drop sent_total buf)"
      by simp_all
    show ?thesis
    proof (cases x)
      case (Inr n)
      with "1.prems" True s have rec: "send_loop buf (sent_total + n) w1 = Some (ok, w')"
        by (simp add: unfold)
      from x Inr have o1: "sock_out w1 = sock_out w @ take n (drop sent_total buf)" by simp
      have app: "take n (drop sent_total buf) @ drop (sent_total + n) buf = drop sent_total buf"
        by (metis add.commute append_take_drop_id drop_drop)
      from "1.IH"(2) [OF True s refl Inr rec] have
        ih: "data_file w' = data_file w1" "same_connection w1 w'"
          "if ok then sock_out w' = sock_out w1 @ drop (sent_total + n) buf \<and>
                     syslog_out w' = syslog_out w1
           else syslog_out w' = syslog_out w1 @ [(LOG_ERR, ''send() failed'')]"
        by simp_all
      have "if ok then sock_out w' = sock_out w @ drop sent_total buf \<and>
                     syslog_out w' = syslog_out w
          else syslog_out w' = syslog_out w @ [(LOG_ERR, ''send() failed'')]"
      proof (cases ok)
        case True
        with ih(3) o1 f1(3) app show ?thesis by simp
      next
        case False
        with ih(3) f1(3) show ?thesis by simp
      qed
      moreover have "same_connection w w'" using f1(2) ih(2) by (rule same_connection_trans)
      ultimately show ?thesis using ih(1) f1(1) by simp
    next
      case (Inl e)
      with x have o1: "sock_out w1 = sock_out w" by simp
      show ?thesis
      proof (cases "e = EINTR")
        case eintr: True
        with "1.prems" True s Inl have rec: "send_loop buf sent_total w1 = Some (ok, w')"
          by (simp add: unfold)
        from "1.IH"(1) [OF True s refl Inl eintr rec] have
          ih: "data_file w' = data_file w1" "same_connection w1 w'"
            "if ok then sock_out w' = sock_out w1 @ drop sent_total buf \<and>
                     syslog_out w' = syslog_out w1
             else syslog_out w' = syslog_out w1 @ [(LOG_ERR, ''send() failed'')]"
          by simp_all
        have "if ok then sock_out w' = sock_out w @ drop sent_total buf \<and>
                     syslog_out w' = syslog_out w
          else syslog_out w' = syslog_out w @ [(LOG_ERR, ''send() failed'')]"
        proof (cases ok)
          case True
          with ih(3) o1 f1(3) show ?thesis by simp
        next
          case False
          with ih(3) f1(3) show ?thesis by simp
        qed
        moreover have "same_connection w w'" using f1(2) ih(2) by (rule same_connection_trans)
        ultimately show ?thesis using ih(1) f1(1) by simp
      next
        case other: False
        let ?w1 = "syslog LOG_ERR ''send() failed'' w1"
        from "1.prems" True s Inl other obtain x2 where
          c: "sys (Close Read_fd) ?w1 = Some (x2, w')" and ok: "\<not> ok"
          by (auto simp: unfold split: option.splits)
        from sys_call [OF c] have
          f2: "syslog_out w' = syslog_out ?w1" "data_file w' = data_file ?w1"
            "same_connection ?w1 w'"
          by simp_all
        have "same_connection w w'"
          using f1(2) f2(3) by (auto intro: same_connection_trans)
        then show ?thesis using ok f1 f2 by simp
      qed
    qed
  qed
qed

lemma read_loop_Some:
  assumes "read_loop off w = Some (ok, w')"
  shows "data_file w' = data_file w \<and> same_connection w w' \<and>
         (if ok then sock_out w' = sock_out w @ drop off (contents (data_file w)) \<and>
                     syslog_out w' = syslog_out w
          else \<exists>m \<in> echo_errors. syslog_out w' = syslog_out w @ [(LOG_ERR, m)])"
  using assms
proof (induction off w rule: read_loop.induct)
  case (1 off w)
  note unfold = read_loop.simps [of off w]
  from "1.prems" obtain x w1 where s: "read_fd off 1024 w = Some (x, w1)"
    by (auto simp: unfold split: option.splits)
  from read_fd_call [OF s] have
    f1: "data_file w1 = data_file w" "same_connection w w1" "syslog_out w1 = syslog_out w"
      "sock_out w1 = sock_out w"
    and x: "case x of Inl e \<Rightarrow> True
            | Inr buf \<Rightarrow> \<exists>k. 0 < k \<and> buf = take k (drop off (contents (data_file w)))"
    by simp_all
  show ?case
  proof (cases x)
    case (Inl e)
    let ?w1 = "syslog LOG_ERR ''read failed'' w1"
    from "1.prems" s Inl obtain x2 where
      c: "sys (Close Read_fd) ?w1 = Some (x2, w')" and ok: "\<not> ok"
      by (auto simp: unfold split: option.splits)
    from sys_call [OF c] have
      f2: "syslog_out w' = syslog_out ?w1" "data_file w' = data_file ?w1"
        "same_connection ?w1 w'"
      by simp_all
    have "same_connection w w'"
      using f1(2) f2(3) by (auto intro: same_connection_trans)
    then show ?thesis using ok f1 f2 by (simp add: echo_errors_def)
  next
    case (Inr buf)
    with x obtain k where k: "0 < k" "buf = take k (drop off (contents (data_file w)))"
      by auto
    show ?thesis
    proof (cases "0 < length buf")
      case False
      with "1.prems" s Inr have r: "ok" "w' = w1" by (simp_all add: unfold)
      from False k have "drop off (contents (data_file w)) = []" by (cases "drop off (contents (data_file w))") auto
      with r f1 show ?thesis by simp
    next
      case True
      with "1.prems" s Inr obtain ok1 w2 where sl: "send_loop buf 0 w1 = Some (ok1, w2)"
        by (auto simp: unfold split: option.splits)
      from send_loop_Some [OF sl] have
        f2: "data_file w2 = data_file w1" "same_connection w1 w2"
        and o2: "if ok1 then sock_out w2 = sock_out w1 @ drop 0 buf \<and>
                     syslog_out w2 = syslog_out w1
                 else syslog_out w2 = syslog_out w1 @ [(LOG_ERR, ''send() failed'')]"
        by simp_all
      have c2: "same_connection w w2" using f1(2) f2(2) by (rule same_connection_trans)
      show ?thesis
      proof (cases ok1)
        case False
        with "1.prems" s Inr True sl have r: "\<not> ok" "w' = w2" by (simp_all add: unfold)
        with False o2 f1 f2 c2 show ?thesis by (simp add: echo_errors_def)
      next
        case ok1: True
        with "1.prems" s Inr True sl
        have rec: "read_loop (off + length buf) w2 = Some (ok, w')"
          by (simp add: unfold)
        have ok1t: "ok1 = True" using ok1 by simp
        from "1.IH" [OF s refl Inr True sl refl ok1t rec] have
          ih: "data_file w' = data_file w2" "same_connection w2 w'"
            "if ok then sock_out w' = sock_out w2 @ drop (off + length buf) (contents (data_file w2)) \<and>
                     syslog_out w' = syslog_out w2
             else \<exists>m \<in> echo_errors. syslog_out w' = syslog_out w2 @ [(LOG_ERR, m)]"
          by simp_all
        from ok1 o2 have o2': "sock_out w2 = sock_out w1 @ buf" "syslog_out w2 = syslog_out w1"
          by simp_all
        have app: "buf @ drop (off + length buf) (contents (data_file w)) =
              drop off (contents (data_file w))"
          using k(2) by (metis add.commute append_take_drop_id drop_drop length_take min.commute take_all_iff take_take linorder_le_cases min.absorb1 min.absorb2)
        have "if ok then sock_out w' = sock_out w @ drop off (contents (data_file w)) \<and>
                     syslog_out w' = syslog_out w
          else \<exists>m \<in> echo_errors. syslog_out w' = syslog_out w @ [(LOG_ERR, m)]"
        proof (cases ok)
          case True
          with ih(3) o2' f1 f2 app show ?thesis by simp
        next
          case False
          with ih(3) o2' f1 show ?thesis by simp
        qed
        moreover have "same_connection w w'" using c2 ih(2) by (rule same_connection_trans)
        ultimately show ?thesis using ih(1) f2(1) f1(1) by simp
      qed
    qed
  qed
qed

lemma send_file_contents_Some:
  assumes "send_file_contents w = Some (r, w')"
  shows "data_file w' = data_file w \<and> same_connection w w' \<and>
         (if r = 0 then sock_out w' = sock_out w @ contents (data_file w) \<and>
                        syslog_out w' = syslog_out w
          else r = - 1 \<and> (\<exists>m \<in> echo_errors. syslog_out w' = syslog_out w @ [(LOG_ERR, m)]))"
proof -
  from assms obtain x w1 where o: "open_read w = Some (x, w1)"
    by (auto simp: send_file_contents_def split: option.splits)
  from open_read_call [OF o] have
    f1: "data_file w1 = data_file w" "same_connection w w1" "syslog_out w1 = syslog_out w"
      "sock_out w1 = sock_out w"
    by simp_all
  show ?thesis
  proof (cases x)
    case (Some e)
    with assms o have "r = - 1" "w' = syslog LOG_ERR ''open for read failed'' w1"
      by (simp_all add: send_file_contents_def)
    with f1 show ?thesis by (simp add: echo_errors_def)
  next
    case None
    with assms o obtain ok w2 where rl: "read_loop 0 w1 = Some (ok, w2)"
      by (auto simp: send_file_contents_def split: option.splits)
    from read_loop_Some [OF rl] have
      f2: "data_file w2 = data_file w1" "same_connection w1 w2"
      and o2: "if ok then sock_out w2 = sock_out w1 @ drop 0 (contents (data_file w1)) \<and>
                     syslog_out w2 = syslog_out w1
               else \<exists>m \<in> echo_errors. syslog_out w2 = syslog_out w1 @ [(LOG_ERR, m)]"
      by simp_all
    have c2: "same_connection w w2" using f1(2) f2(2) by (rule same_connection_trans)
    show ?thesis
    proof (cases ok)
      case False
      with assms o None rl have "r = - 1" "w' = w2"
        by (simp_all add: send_file_contents_def)
      with False o2 f1 f2 c2 show ?thesis by simp
    next
      case True
      with o2 have o2': "sock_out w2 = sock_out w1 @ contents (data_file w1)"
        "syslog_out w2 = syslog_out w1" by simp_all
      from assms o None rl True obtain rc w3 where c: "sys (Close Read_fd) w2 = Some (rc, w3)"
        by (auto simp: send_file_contents_def split: option.splits)
      from sys_call [OF c] have
        f3: "syslog_out w3 = syslog_out w2" "data_file w3 = data_file w2"
          "sock_out w3 = sock_out w2" "same_connection w2 w3"
        by simp_all
      have c3: "same_connection w w3" using c2 f3(4) by (rule same_connection_trans)
      show ?thesis
      proof (cases rc)
        case (Fail e)
        with assms o None rl True c
        have "r = - 1" "w' = syslog LOG_ERR ''close data file failed'' w3"
          by (simp_all add: send_file_contents_def)
        with f1 f2 f3 o2' c3 show ?thesis by (simp add: echo_errors_def)
      next
        case (Ret k)
        with assms o None rl True c have "r = 0" "w' = w3"
          by (simp_all add: send_file_contents_def)
        with f1 f2 f3 o2' c3 show ?thesis by simp
      qed
    qed
  qed
qed

subsection \<open>A failed setup\<close>

lemma setup_call_Some:
  assumes "setup_call c msg w = Some (ok, w1)"
  shows "\<exists>g r. script w = (g, r) # script w1 \<and> (ok \<longleftrightarrow> succeeded r) \<and>
           trace w1 = trace w @ [(c, r)] \<and>
           syslog_out w1 = syslog_out w @ (if ok then [] else [(LOG_ERR, msg)]) \<and>
           data_file w1 = data_file w"
  using assms
  by (auto simp: setup_call_def sys_Some deliver_eq syslog_def split: option.splits reply.splits)

lemma cleanup_calls:
  assumes "cleanup have_fd r0 w = Some (ret, w')"
  shows "ret = r0 \<and>
         (\<exists>r1 r.
            trace w' = trace w @ (if have_fd then [(Close Server_fd, r1)] else []) @ [(Remove, r)] \<and>
            syslog_out w' = syslog_out w @
              (if have_fd \<and> \<not> succeeded r1 then [(LOG_ERR, ''close(server_fd) failed'')] else []) @
              (if removal_error r then [(LOG_ERR, ''remove failed'')] else []) \<and>
            data_file w' = (if succeeded r then None else data_file w))"
proof -
  from assms obtain w1 where c: "close_server have_fd w = Some w1"
    by (auto simp: cleanup_def split: option.splits)
  have "\<exists>r1. trace w1 = trace w @ (if have_fd then [(Close Server_fd, r1)] else []) \<and>
      syslog_out w1 = syslog_out w @
        (if have_fd \<and> \<not> succeeded r1 then [(LOG_ERR, ''close(server_fd) failed'')] else []) \<and>
      data_file w1 = data_file w"
  proof (cases have_fd)
    case False
    with c show ?thesis by (simp add: close_server_def)
  next
    case True
    with c obtain r1 w0 where s: "sys (Close Server_fd) w = Some (r1, w0)"
      by (auto simp: close_server_def split: option.splits)
    note f = sys_call [OF s]
    have "w1 = (if succeeded r1 then w0 else syslog LOG_ERR ''close(server_fd) failed'' w0)"
      using c s True by (cases r1) (simp_all add: close_server_def)
    with f True show ?thesis by auto
  qed
  then obtain r1 where
    c1: "trace w1 = trace w @ (if have_fd then [(Close Server_fd, r1)] else [])"
      "syslog_out w1 = syslog_out w @
        (if have_fd \<and> \<not> succeeded r1 then [(LOG_ERR, ''close(server_fd) failed'')] else [])"
      "data_file w1 = data_file w"
    by blast
  from assms c obtain x w2 where r: "remove_file w1 = Some (x, w2)"
    and w': "w' = (case x of Some e \<Rightarrow> if e \<noteq> ENOENT then syslog LOG_ERR ''remove failed'' w2 else w2
                   | None \<Rightarrow> w2)" and ret: "ret = r0"
    by (auto simp: cleanup_def split: option.splits)
  from r obtain r3 w3 where s: "sys Remove w1 = Some (r3, w3)"
    by (auto simp: remove_file_def split: option.splits)
  note f = sys_call [OF s]
  have "trace w' = trace w1 @ [(Remove, r3)] \<and>
      syslog_out w' = syslog_out w1 @
        (if removal_error r3 then [(LOG_ERR, ''remove failed'')] else []) \<and>
      data_file w' = (if succeeded r3 then None else data_file w1)"
  proof (cases r3)
    case (Fail e)
    with r s have "x = Some e" "w2 = w3" by (simp_all add: remove_file_def)
    with w' f Fail show ?thesis by simp
  next
    case (Ret n)
    show ?thesis
    proof (cases "data_file w3 = None")
      case True
      with r s Ret have "x = Some ENOENT" "w2 = w3" by (simp_all add: remove_file_def)
      with w' f Ret True show ?thesis by simp
    next
      case False
      with r s Ret have "x = None" "w2 = w3\<lparr>data_file := None\<rparr>"
        by (simp_all add: remove_file_def)
      with w' f Ret show ?thesis by simp
    qed
  qed
  then have "\<exists>r. trace w' = trace w1 @ [(Remove, r)] \<and>
      syslog_out w' = syslog_out w1 @
        (if removal_error r then [(LOG_ERR, ''remove failed'')] else []) \<and>
      data_file w' = (if succeeded r then None else data_file w1)"
    by blast
  then obtain r where
    r2: "trace w' = trace w1 @ [(Remove, r)]"
      "syslog_out w' = syslog_out w1 @
        (if removal_error r then [(LOG_ERR, ''remove failed'')] else [])"
      "data_file w' = (if succeeded r then None else data_file w1)"
    by blast
  have "trace w' = trace w @ (if have_fd then [(Close Server_fd, r1)] else []) @ [(Remove, r)] \<and>
      syslog_out w' = syslog_out w @
        (if have_fd \<and> \<not> succeeded r1 then [(LOG_ERR, ''close(server_fd) failed'')] else []) @
        (if removal_error r then [(LOG_ERR, ''remove failed'')] else []) \<and>
      data_file w' = (if succeeded r then None else data_file w)"
    using c1 r2 by simp
  with ret show ?thesis by blast
qed

lemma setup_failure_cleanup:
  assumes c: "cleanup have_fd (- 1) w1 = Some (ret, w')"
    and k: "k < 6" "have_fd \<longleftrightarrow> 3 \<le> k"
    and s: "script w = used @ (g, r) # script w1" "length used = k"
      "\<forall>e \<in> set used. succeeded (snd e)" "\<not> succeeded r"
    and t: "trace w1 = trace w @ zip (map fst setup_phase) (map snd (used @ [(g, r)]))"
    and l: "syslog_out w1 = syslog_out w @ [(LOG_ERR, snd (setup_phase ! k))]"
    and d: "data_file w1 = data_file w"
  shows "setup_failure k w ret w'"
proof -
  from cleanup_calls [OF c] obtain r1 r2 where
    f: "ret = - 1"
      "trace w' = trace w1 @ (if have_fd then [(Close Server_fd, r1)] else []) @ [(Remove, r2)]"
      "syslog_out w' = syslog_out w1 @
         (if have_fd \<and> \<not> succeeded r1 then [(LOG_ERR, ''close(server_fd) failed'')] else []) @
         (if removal_error r2 then [(LOG_ERR, ''remove failed'')] else [])"
      "data_file w' = (if succeeded r2 then None else data_file w1)"
    by blast
  have tk: "take k (script w) = used" "take (Suc k) (script w) = used @ [(g, r)]"
    "script w ! k = (g, r)" "k < length (script w)"
    using s(1,2) by (simp_all add: nth_append)
  show ?thesis
    unfolding setup_failure_def tk(1,2,3)
    using f k s(3,4) t l d tk(4) by auto
qed

lemma main_setup_failure:
  assumes m: "main w = Some (ret, w')" and n: "\<not> setup_succeeds w"
  shows "\<exists>k. setup_failure k w ret w'"
proof -
  note defs = main_def
  note ph = setup_phase_def
  from m obtain ok1 w1 where
    s1: "setup_call (Sigaction SIGINT) ''sigaction(SIGINT) failed'' w = Some (ok1, w1)"
    by (auto simp: defs split: option.splits)
  from setup_call_Some [OF s1] obtain g1 r1 where
    c1: "script w = (g1, r1) # script w1" "ok1 \<longleftrightarrow> succeeded r1"
      "trace w1 = trace w @ [(Sigaction SIGINT, r1)]"
      "syslog_out w1 = syslog_out w @ (if ok1 then [] else [(LOG_ERR, ''sigaction(SIGINT) failed'')])"
      "data_file w1 = data_file w"
    by blast
  show ?thesis
  proof (cases ok1)
    case False
    with m s1 have cl: "cleanup False (- 1) w1 = Some (ret, w')" by (simp add: defs)
    have "setup_failure 0 w ret w'"
    proof (rule setup_failure_cleanup [OF cl, where used = "[]" and g = g1 and r = r1])
      show "script w = [] @ (g1, r1) # script w1"
        using c1(1) by simp
      show "\<forall>e \<in> set []. succeeded (snd e)"
        using TrueI by simp
      show "\<not> succeeded r1" using c1(2) False by simp
      show "trace w1 = trace w @ zip (map fst setup_phase) (map snd ([] @ [(g1, r1)]))"
        using c1(3) by (simp add: ph)
      show "syslog_out w1 = syslog_out w @ [(LOG_ERR, snd (setup_phase ! 0))]"
        using c1(4)  False by (simp add: ph)
      show "data_file w1 = data_file w"
        using c1(5) by simp
    qed simp_all
    then show ?thesis by blast
  next
    case ok1: True
    from m s1 ok1 obtain ok2 w2 where
      s2: "setup_call (Sigaction SIGTERM) ''sigaction(SIGTERM) failed'' w1 = Some (ok2, w2)"
      by (auto simp: defs split: option.splits)
    from setup_call_Some [OF s2] obtain g2 r2 where
      c2: "script w1 = (g2, r2) # script w2" "ok2 \<longleftrightarrow> succeeded r2"
        "trace w2 = trace w1 @ [(Sigaction SIGTERM, r2)]"
        "syslog_out w2 = syslog_out w1 @ (if ok2 then [] else [(LOG_ERR, ''sigaction(SIGTERM) failed'')])"
        "data_file w2 = data_file w1"
      by blast
    show ?thesis
    proof (cases ok2)
      case False
      with m s1 ok1 s2 have cl: "cleanup False (- 1) w2 = Some (ret, w')" by (simp add: defs)
      have "setup_failure 1 w ret w'"
      proof (rule setup_failure_cleanup [OF cl, where used = "[(g1, r1)]" and g = g2 and r = r2])
        show "script w = [(g1, r1)] @ (g2, r2) # script w2"
          using c1(1) c2(1) by simp
        show "\<forall>e \<in> set [(g1, r1)]. succeeded (snd e)"
          using c1(2) ok1 by simp
        show "\<not> succeeded r2" using c2(2) False by simp
        show "trace w2 = trace w @ zip (map fst setup_phase) (map snd ([(g1, r1)] @ [(g2, r2)]))"
          using c1(3) c2(3) by (simp add: ph)
        show "syslog_out w2 = syslog_out w @ [(LOG_ERR, snd (setup_phase ! 1))]"
          using c1(4) c2(4) ok1 False by (simp add: ph)
        show "data_file w2 = data_file w"
          using c1(5) c2(5) by simp
      qed simp_all
      then show ?thesis by blast
    next
      case ok2: True
      from m s1 ok1 s2 ok2 obtain ok3 w3 where
        s3: "setup_call (Socket) ''socket() failed'' w2 = Some (ok3, w3)"
        by (auto simp: defs split: option.splits)
      from setup_call_Some [OF s3] obtain g3 r3 where
        c3: "script w2 = (g3, r3) # script w3" "ok3 \<longleftrightarrow> succeeded r3"
          "trace w3 = trace w2 @ [(Socket, r3)]"
          "syslog_out w3 = syslog_out w2 @ (if ok3 then [] else [(LOG_ERR, ''socket() failed'')])"
          "data_file w3 = data_file w2"
        by blast
      show ?thesis
      proof (cases ok3)
        case False
        with m s1 ok1 s2 ok2 s3 have cl: "cleanup False (- 1) w3 = Some (ret, w')" by (simp add: defs)
        have "setup_failure 2 w ret w'"
        proof (rule setup_failure_cleanup [OF cl, where used = "[(g1, r1), (g2, r2)]" and g = g3 and r = r3])
          show "script w = [(g1, r1), (g2, r2)] @ (g3, r3) # script w3"
            using c1(1) c2(1) c3(1) by simp
          show "\<forall>e \<in> set [(g1, r1), (g2, r2)]. succeeded (snd e)"
            using c1(2) ok1 c2(2) ok2 by simp
          show "\<not> succeeded r3" using c3(2) False by simp
          show "trace w3 = trace w @ zip (map fst setup_phase) (map snd ([(g1, r1), (g2, r2)] @ [(g3, r3)]))"
            using c1(3) c2(3) c3(3) by (simp add: ph)
          show "syslog_out w3 = syslog_out w @ [(LOG_ERR, snd (setup_phase ! 2))]"
            using c1(4) c2(4) c3(4) ok1 ok2 False by (simp add: ph)
          show "data_file w3 = data_file w"
            using c1(5) c2(5) c3(5) by simp
        qed simp_all
        then show ?thesis by blast
      next
        case ok3: True
        from m s1 ok1 s2 ok2 s3 ok3 obtain ok4 w4 where
          s4: "setup_call (Setsockopt) ''setsockopt(SO_REUSEADDR) failed'' w3 = Some (ok4, w4)"
          by (auto simp: defs split: option.splits)
        from setup_call_Some [OF s4] obtain g4 r4 where
          c4: "script w3 = (g4, r4) # script w4" "ok4 \<longleftrightarrow> succeeded r4"
            "trace w4 = trace w3 @ [(Setsockopt, r4)]"
            "syslog_out w4 = syslog_out w3 @ (if ok4 then [] else [(LOG_ERR, ''setsockopt(SO_REUSEADDR) failed'')])"
            "data_file w4 = data_file w3"
          by blast
        show ?thesis
        proof (cases ok4)
          case False
          with m s1 ok1 s2 ok2 s3 ok3 s4 have cl: "cleanup True (- 1) w4 = Some (ret, w')" by (simp add: defs)
          have "setup_failure 3 w ret w'"
          proof (rule setup_failure_cleanup [OF cl, where used = "[(g1, r1), (g2, r2), (g3, r3)]" and g = g4 and r = r4])
            show "script w = [(g1, r1), (g2, r2), (g3, r3)] @ (g4, r4) # script w4"
              using c1(1) c2(1) c3(1) c4(1) by simp
            show "\<forall>e \<in> set [(g1, r1), (g2, r2), (g3, r3)]. succeeded (snd e)"
              using c1(2) ok1 c2(2) ok2 c3(2) ok3 by simp
            show "\<not> succeeded r4" using c4(2) False by simp
            show "trace w4 = trace w @ zip (map fst setup_phase) (map snd ([(g1, r1), (g2, r2), (g3, r3)] @ [(g4, r4)]))"
              using c1(3) c2(3) c3(3) c4(3) by (simp add: ph)
            show "syslog_out w4 = syslog_out w @ [(LOG_ERR, snd (setup_phase ! 3))]"
              using c1(4) c2(4) c3(4) c4(4) ok1 ok2 ok3 False by (simp add: ph)
            show "data_file w4 = data_file w"
              using c1(5) c2(5) c3(5) c4(5) by simp
          qed simp_all
          then show ?thesis by blast
        next
          case ok4: True
          from m s1 ok1 s2 ok2 s3 ok3 s4 ok4 obtain ok5 w5 where
            s5: "setup_call (Bind) ''bind() failed'' w4 = Some (ok5, w5)"
            by (auto simp: defs split: option.splits)
          from setup_call_Some [OF s5] obtain g5 r5 where
            c5: "script w4 = (g5, r5) # script w5" "ok5 \<longleftrightarrow> succeeded r5"
              "trace w5 = trace w4 @ [(Bind, r5)]"
              "syslog_out w5 = syslog_out w4 @ (if ok5 then [] else [(LOG_ERR, ''bind() failed'')])"
              "data_file w5 = data_file w4"
            by blast
          show ?thesis
          proof (cases ok5)
            case False
            with m s1 ok1 s2 ok2 s3 ok3 s4 ok4 s5 have cl: "cleanup True (- 1) w5 = Some (ret, w')" by (simp add: defs)
            have "setup_failure 4 w ret w'"
            proof (rule setup_failure_cleanup [OF cl, where used = "[(g1, r1), (g2, r2), (g3, r3), (g4, r4)]" and g = g5 and r = r5])
              show "script w = [(g1, r1), (g2, r2), (g3, r3), (g4, r4)] @ (g5, r5) # script w5"
                using c1(1) c2(1) c3(1) c4(1) c5(1) by simp
              show "\<forall>e \<in> set [(g1, r1), (g2, r2), (g3, r3), (g4, r4)]. succeeded (snd e)"
                using c1(2) ok1 c2(2) ok2 c3(2) ok3 c4(2) ok4 by simp
              show "\<not> succeeded r5" using c5(2) False by simp
              show "trace w5 = trace w @ zip (map fst setup_phase) (map snd ([(g1, r1), (g2, r2), (g3, r3), (g4, r4)] @ [(g5, r5)]))"
                using c1(3) c2(3) c3(3) c4(3) c5(3) by (simp add: ph)
              show "syslog_out w5 = syslog_out w @ [(LOG_ERR, snd (setup_phase ! 4))]"
                using c1(4) c2(4) c3(4) c4(4) c5(4) ok1 ok2 ok3 ok4 False by (simp add: ph)
              show "data_file w5 = data_file w"
                using c1(5) c2(5) c3(5) c4(5) c5(5) by simp
            qed simp_all
            then show ?thesis by blast
          next
            case ok5: True
            from m s1 ok1 s2 ok2 s3 ok3 s4 ok4 s5 ok5 obtain ok6 w6 where
              s6: "setup_call (Listen) ''listen() failed'' w5 = Some (ok6, w6)"
              by (auto simp: defs split: option.splits)
            from setup_call_Some [OF s6] obtain g6 r6 where
              c6: "script w5 = (g6, r6) # script w6" "ok6 \<longleftrightarrow> succeeded r6"
                "trace w6 = trace w5 @ [(Listen, r6)]"
                "syslog_out w6 = syslog_out w5 @ (if ok6 then [] else [(LOG_ERR, ''listen() failed'')])"
                "data_file w6 = data_file w5"
              by blast
            show ?thesis
            proof (cases ok6)
              case False
              with m s1 ok1 s2 ok2 s3 ok3 s4 ok4 s5 ok5 s6 have cl: "cleanup True (- 1) w6 = Some (ret, w')" by (simp add: defs)
              have "setup_failure 5 w ret w'"
              proof (rule setup_failure_cleanup [OF cl, where used = "[(g1, r1), (g2, r2), (g3, r3), (g4, r4), (g5, r5)]" and g = g6 and r = r6])
                show "script w = [(g1, r1), (g2, r2), (g3, r3), (g4, r4), (g5, r5)] @ (g6, r6) # script w6"
                  using c1(1) c2(1) c3(1) c4(1) c5(1) c6(1) by simp
                show "\<forall>e \<in> set [(g1, r1), (g2, r2), (g3, r3), (g4, r4), (g5, r5)]. succeeded (snd e)"
                  using c1(2) ok1 c2(2) ok2 c3(2) ok3 c4(2) ok4 c5(2) ok5 by simp
                show "\<not> succeeded r6" using c6(2) False by simp
                show "trace w6 = trace w @ zip (map fst setup_phase) (map snd ([(g1, r1), (g2, r2), (g3, r3), (g4, r4), (g5, r5)] @ [(g6, r6)]))"
                  using c1(3) c2(3) c3(3) c4(3) c5(3) c6(3) by (simp add: ph)
                show "syslog_out w6 = syslog_out w @ [(LOG_ERR, snd (setup_phase ! 5))]"
                  using c1(4) c2(4) c3(4) c4(4) c5(4) c6(4) ok1 ok2 ok3 ok4 ok5 False by (simp add: ph)
                show "data_file w6 = data_file w"
                  using c1(5) c2(5) c3(5) c4(5) c5(5) c6(5) by simp
              qed simp_all
              then show ?thesis by blast
            next
              case ok6: True
              have "setup_succeeds w"
                using c1(1,2) ok1 c2(1,2) ok2 c3(1,2) ok3 c4(1,2) ok4 c5(1,2) ok5 c6(1,2) ok6
                by (auto simp: setup_succeeds_def)
              with n show ?thesis by simp
            qed
          qed
        qed
      qed
    qed
  qed
qed

lemma setup_call_returns:
  assumes "script w \<noteq> []"
  shows "\<exists>g r ok w1. setup_call c msg w = Some (ok, w1) \<and> script w = (g, r) # script w1 \<and>
           (ok \<longleftrightarrow> succeeded r)"
proof -
  from assms obtain g r rest where s: "script w = (g, r) # rest"
    by (cases "script w") auto
  show ?thesis
  proof (cases r)
    case (Fail e)
    with s have "setup_call c msg w =
        Some (False, syslog LOG_ERR msg (deliver g (w\<lparr>script := rest, trace := trace w @ [(c, r)]\<rparr>)))"
      by (simp add: setup_call_def sys_def)
    with s Fail show ?thesis by (simp add: deliver_eq)
  next
    case (Ret k)
    with s have "setup_call c msg w =
        Some (True, deliver g (w\<lparr>script := rest, trace := trace w @ [(c, r)]\<rparr>))"
      by (simp add: setup_call_def sys_def)
    with s Ret show ?thesis by (simp add: deliver_eq)
  qed
qed

lemma main_returns_after_failure:
  assumes n: "\<not> setup_succeeds w" and l: "8 \<le> length (script w)"
  shows "\<exists>w'. main w = Some (- 1, w')"
proof -
  note defs = main_def
  have "script w \<noteq> []" using l by auto
  from setup_call_returns [OF this] obtain g1 r1 ok1 w1 where
    s1: "setup_call (Sigaction SIGINT) ''sigaction(SIGINT) failed'' w = Some (ok1, w1)" and
    c1: "script w = (g1, r1) # script w1" "ok1 \<longleftrightarrow> succeeded r1"
    by blast
  have l1: "7 \<le> length (script w1)" using l c1(1) by simp
  show ?thesis
  proof (cases ok1)
    case False
    have "2 \<le> length (script w1)" using l1 by simp
    from cleanup_returns [OF this] obtain w' where "cleanup False (- 1) w1 = Some (- 1, w')"
      by blast
    with  s1 False show ?thesis by (simp add: defs)
  next
    case ok1: True
    have "script w1 \<noteq> []" using l1 by auto
    from setup_call_returns [OF this] obtain g2 r2 ok2 w2 where
      s2: "setup_call (Sigaction SIGTERM) ''sigaction(SIGTERM) failed'' w1 = Some (ok2, w2)" and
      c2: "script w1 = (g2, r2) # script w2" "ok2 \<longleftrightarrow> succeeded r2"
      by blast
    have l2: "6 \<le> length (script w2)" using l1 c2(1) by simp
    show ?thesis
    proof (cases ok2)
      case False
      have "2 \<le> length (script w2)" using l2 by simp
      from cleanup_returns [OF this] obtain w' where "cleanup False (- 1) w2 = Some (- 1, w')"
        by blast
      with s1 ok1 s2 False show ?thesis by (simp add: defs)
    next
      case ok2: True
      have "script w2 \<noteq> []" using l2 by auto
      from setup_call_returns [OF this] obtain g3 r3 ok3 w3 where
        s3: "setup_call (Socket) ''socket() failed'' w2 = Some (ok3, w3)" and
        c3: "script w2 = (g3, r3) # script w3" "ok3 \<longleftrightarrow> succeeded r3"
        by blast
      have l3: "5 \<le> length (script w3)" using l2 c3(1) by simp
      show ?thesis
      proof (cases ok3)
        case False
        have "2 \<le> length (script w3)" using l3 by simp
        from cleanup_returns [OF this] obtain w' where "cleanup False (- 1) w3 = Some (- 1, w')"
          by blast
        with s1 ok1 s2 ok2 s3 False show ?thesis by (simp add: defs)
      next
        case ok3: True
        have "script w3 \<noteq> []" using l3 by auto
        from setup_call_returns [OF this] obtain g4 r4 ok4 w4 where
          s4: "setup_call (Setsockopt) ''setsockopt(SO_REUSEADDR) failed'' w3 = Some (ok4, w4)" and
          c4: "script w3 = (g4, r4) # script w4" "ok4 \<longleftrightarrow> succeeded r4"
          by blast
        have l4: "4 \<le> length (script w4)" using l3 c4(1) by simp
        show ?thesis
        proof (cases ok4)
          case False
          have "2 \<le> length (script w4)" using l4 by simp
          from cleanup_returns [OF this] obtain w' where "cleanup True (- 1) w4 = Some (- 1, w')"
            by blast
          with s1 ok1 s2 ok2 s3 ok3 s4 False show ?thesis by (simp add: defs)
        next
          case ok4: True
          have "script w4 \<noteq> []" using l4 by auto
          from setup_call_returns [OF this] obtain g5 r5 ok5 w5 where
            s5: "setup_call (Bind) ''bind() failed'' w4 = Some (ok5, w5)" and
            c5: "script w4 = (g5, r5) # script w5" "ok5 \<longleftrightarrow> succeeded r5"
            by blast
          have l5: "3 \<le> length (script w5)" using l4 c5(1) by simp
          show ?thesis
          proof (cases ok5)
            case False
            have "2 \<le> length (script w5)" using l5 by simp
            from cleanup_returns [OF this] obtain w' where "cleanup True (- 1) w5 = Some (- 1, w')"
              by blast
            with s1 ok1 s2 ok2 s3 ok3 s4 ok4 s5 False show ?thesis by (simp add: defs)
          next
            case ok5: True
            have "script w5 \<noteq> []" using l5 by auto
            from setup_call_returns [OF this] obtain g6 r6 ok6 w6 where
              s6: "setup_call (Listen) ''listen() failed'' w5 = Some (ok6, w6)" and
              c6: "script w5 = (g6, r6) # script w6" "ok6 \<longleftrightarrow> succeeded r6"
              by blast
            have l6: "2 \<le> length (script w6)" using l5 c6(1) by simp
            show ?thesis
            proof (cases ok6)
              case False
              have "2 \<le> length (script w6)" using l6 by simp
              from cleanup_returns [OF this] obtain w' where "cleanup True (- 1) w6 = Some (- 1, w')"
                by blast
              with s1 ok1 s2 ok2 s3 ok3 s4 ok4 s5 ok5 s6 False show ?thesis by (simp add: defs)
            next
              case ok6: True
              have "setup_succeeds w"
                using c1 ok1 c2 ok2 c3 ok3 c4 ok4 c5 ok5 c6 ok6
                by (simp add: setup_succeeds_def)
              with n show ?thesis by simp
            qed
          qed
        qed
      qed
    qed
  qed
qed

subsection \<open>Records\<close>

lemma records_from_free:
  "newline \<notin> set xs \<Longrightarrow> records_from acc xs = [] \<and> rest_from acc xs = acc @ xs"
  by (induction xs arbitrary: acc) auto

lemma records_from_first:
  "newline \<notin> set pre \<Longrightarrow>
     records_from acc (pre @ newline # rest) = (acc @ pre @ [newline]) # records_from [] rest \<and>
     rest_from acc (pre @ newline # rest) = rest_from [] rest"
  by (induction pre arbitrary: acc) auto

lemma records_from_split:
  "acc @ xs = concat (records_from acc xs) @ rest_from acc xs"
proof (induction xs arbitrary: acc)
  case Nil
  show ?case by simp
next
  case (Cons x xs)
  from Cons [of "[]", symmetric] Cons [of "acc @ [x]", symmetric] show ?case by simp
qed

lemma rest_from_free:
  "newline \<notin> set acc \<Longrightarrow> newline \<notin> set (rest_from acc xs)"
  by (induction xs arbitrary: acc) auto

lemma records_from_append:
  "records_from acc (xs @ ys) = records_from acc xs @ records_from (rest_from acc xs) ys \<and>
   rest_from acc (xs @ ys) = rest_from (rest_from acc xs) ys"
  by (induction xs arbitrary: acc) auto

lemma records_from_shift:
  "newline \<notin> set acc \<Longrightarrow>
     records_from (p @ acc) ys = records_from p (acc @ ys) \<and>
     rest_from (p @ acc) ys = rest_from p (acc @ ys)"
proof (induction acc arbitrary: p)
  case Nil
  then show ?case by simp
next
  case (Cons a acc)
  from Cons.prems have "a \<noteq> newline" "newline \<notin> set acc" by auto
  with Cons.IH [of "p @ [a]"] show ?case by simp
qed

lemma records_free: "newline \<notin> set xs \<Longrightarrow> records xs = []"
  and unterminated_free: "newline \<notin> set xs \<Longrightarrow> unterminated xs = xs"
  by (simp_all add: records_def unterminated_def records_from_free)

lemma records_first:
  "newline \<notin> set pre \<Longrightarrow> records (pre @ newline # rest) = (pre @ [newline]) # records rest"
  and unterminated_first:
  "newline \<notin> set pre \<Longrightarrow> unterminated (pre @ newline # rest) = unterminated rest"
  using records_from_first [of pre "[]" rest] by (simp_all add: records_def unterminated_def)

lemma records_split: "xs = concat (records xs) @ unterminated xs"
  using records_from_split [of "[]" xs] by (simp add: records_def unterminated_def)

lemma unterminated_no_newline: "newline \<notin> set (unterminated xs)"
  by (simp add: unterminated_def rest_from_free)

lemma records_append: "records (xs @ ys) = records xs @ records (unterminated xs @ ys)"
  and unterminated_append: "unterminated (xs @ ys) = unterminated (unterminated xs @ ys)"
proof -
  have f: "newline \<notin> set (rest_from [] xs)" by (simp add: rest_from_free)
  from records_from_shift [OF f, of "[]" ys] records_from_append [of "[]" xs ys]
  show "records (xs @ ys) = records xs @ records (unterminated xs @ ys)"
    and "unterminated (xs @ ys) = unterminated (unterminated xs @ ys)"
    by (simp_all add: records_def unterminated_def)
qed

lemma responses_append:
  "responses s (a @ b) = responses s a @ responses (s @ concat a) b"
  by (induction a arbitrary: s) auto

lemma length_records: "length (records xs) = count_list xs newline"
proof -
  have "length (records_from acc xs) = count_list xs newline" for acc
    by (induction xs arbitrary: acc) auto
  then show ?thesis by (simp add: records_def)
qed

lemma records_terminated:
  "r \<in> set (records xs) \<Longrightarrow> \<exists>pre. r = pre @ [newline] \<and> newline \<notin> set pre"
proof -
  have "newline \<notin> set acc \<Longrightarrow> r \<in> set (records_from acc xs) \<Longrightarrow>
      \<exists>pre. r = pre @ [newline] \<and> newline \<notin> set pre" for acc
  proof (induction xs arbitrary: acc)
    case Nil
    then show ?case by simp
  next
    case (Cons x xs)
    show ?case
    proof (cases "x = newline")
      case True
      with Cons.prems have "r = acc @ [newline] \<or> r \<in> set (records_from [] xs)" by auto
      then show ?thesis
      proof
        assume "r = acc @ [newline]"
        with Cons.prems(1) show ?thesis by blast
      next
        assume "r \<in> set (records_from [] xs)"
        with Cons.IH [of "[]"] show ?thesis by simp
      qed
    next
      case False
      with Cons.prems have "r \<in> set (records_from (acc @ [x]) xs)" by simp
      with Cons.IH [of "acc @ [x]"] Cons.prems(1) False show ?thesis by simp
    qed
  qed
  from this [of "[]"]
  show "r \<in> set (records xs) \<Longrightarrow> \<exists>pre. r = pre @ [newline] \<and> newline \<notin> set pre"
    by (simp add: records_def)
qed

lemma responses_nth:
  "i < length rs \<Longrightarrow> responses s rs ! i = s @ concat (take (Suc i) rs)"
proof (induction rs arbitrary: s i)
  case Nil
  then show ?case by simp
next
  case (Cons r rs)
  show ?case
  proof (cases i)
    case 0
    then show ?thesis by simp
  next
    case (Suc j)
    with Cons.prems have "j < length rs" by simp
    from Cons.IH [OF this, of "s @ r"] Suc show ?thesis by simp
  qed
qed

subsection \<open>What a connection does to the store and to the client\<close>

lemma drop_split_at:
  assumes "start \<le> i" "i < length buf"
  shows "drop start buf = take (i - start) (drop start buf) @ buf ! i # drop (Suc i) buf"
proof -
  have "drop (i - start) (drop start buf) = drop i buf"
    using assms by simp
  also have "\<dots> = buf ! i # drop (Suc i) buf"
    using assms(2) by (simp add: Cons_nth_drop_Suc)
  finally have a: "buf ! i # drop (Suc i) buf = drop (i - start) (drop start buf)"
    by (rule sym)
  show ?thesis
    unfolding a by (rule append_take_drop_id [symmetric])
qed

lemma take_record:
  assumes "start \<le> i" "i < length buf"
  shows "take (i - start + 1) (drop start buf) = take (i - start) (drop start buf) @ [buf ! i]"
proof -
  have "i - start < length (drop start buf)" using assms by simp
  then have "take (Suc (i - start)) (drop start buf) =
      take (i - start) (drop start buf) @ [drop start buf ! (i - start)]"
    by (rule take_Suc_conv_app_nth)
  moreover have "drop start buf ! (i - start) = buf ! i" using assms by simp
  ultimately show ?thesis by simp
qed

lemma process_packets_Some:
  assumes "process_packets buf n i start w = Some (start', w')"
    and "n = length buf" "start \<le> i" "i \<le> n"
    and "newline \<notin> set (take (i - start) (drop start buf))"
  shows "start \<le> start' \<and> packets_outcome (drop start buf) (start' - start) w w'"
  using assms
proof (induction buf n i start w rule: process_packets.induct)
  case (1 buf n i start w)
  note unfold = process_packets.simps [of buf n i start w]
  note n = \<open>n = length buf\<close>
  let ?seg = "drop start buf"
  let ?pre = "take (i - start) ?seg"
  show ?case
  proof (cases "i < n")
    case False
    with "1.prems"(1) have r: "start' = start" "w' = w" by (simp_all add: unfold)
    from False "1.prems"(4) have i: "i = n" by simp
    have "?pre = ?seg" using i n by simp
    with "1.prems"(5) have "newline \<notin> set ?seg" by simp
    then have "records ?seg = []" by (rule records_free)
    with r show ?thesis by (simp add: packets_outcome_def)
  next
    case True
    then have il: "i < length buf" using n by simp
    note split = drop_split_at [OF \<open>start \<le> i\<close> il]
    show ?thesis
    proof (cases "buf ! i = newline")
      case False
      with "1.prems"(1) True
      have rec: "process_packets buf n (i + 1) start w = Some (start', w')"
        by (simp add: unfold)
      have "take (i + 1 - start) ?seg = ?pre @ [buf ! i]"
        using take_record [OF \<open>start \<le> i\<close> il] \<open>start \<le> i\<close> by (simp add: Suc_diff_le)
      with False "1.prems"(5) have "newline \<notin> set (take (i + 1 - start) ?seg)" by simp
      with "1.IH"(2) [OF True False rec n] \<open>start \<le> i\<close> True show ?thesis by simp
    next
      case nl: True
      let ?rec = "take (i - start + 1) ?seg"
      let ?rest = "drop (Suc i) buf"
      have rec: "?rec = ?pre @ [newline]"
        using take_record [OF \<open>start \<le> i\<close> il] nl by simp
      have seg: "?seg = ?pre @ newline # ?rest" using split nl by simp
      have recs: "records ?seg = ?rec # records ?rest"
        using records_first [OF "1.prems"(5), of ?rest] seg rec by simp
      have lrec: "length ?rec = i - start + 1" using il \<open>start \<le> i\<close> by simp
      from "1.prems"(1) True nl obtain r1 w1 where a: "append_to_file ?rec w = Some (r1, w1)"
        by (auto simp: unfold split: option.splits)
      from append_to_file_Some [OF a] obtain t where
        f1: "sock_out w1 = sock_out w" "same_connection w w1" and
        o1: "if r1 = 0 then
               append_success t \<and> data_file w1 = Some (contents (data_file w) @ ?rec) \<and>
               syslog_out w1 = syslog_out w
             else
               r1 = - 1 \<and> append_failure t \<and>
               (\<exists>m \<in> append_errors. syslog_out w1 = syslog_out w @ [(LOG_ERR, m)])"
        by blast
      have k: "i + 1 - start \<le> length ?seg" using il \<open>start \<le> i\<close> by simp
      show ?thesis
      proof (cases "r1 = 0")
        case False
        with "1.prems"(1) True nl a have r: "start' = i + 1" "w' = w1" by (simp_all add: unfold)
        from False o1 have "\<exists>m \<in> append_errors \<union> echo_errors.
            syslog_out w1 = syslog_out w @ [(LOG_ERR, m)]" by auto
        with r f1 k \<open>start \<le> i\<close> show ?thesis by (simp add: packets_outcome_def)
      next
        case r1: True
        with o1 have d1: "data_file w1 = Some (contents (data_file w) @ ?rec)"
          and l1: "syslog_out w1 = syslog_out w" by simp_all
        from "1.prems"(1) True nl a r1 obtain r2 w2 where b: "send_file_contents w1 = Some (r2, w2)"
          by (auto simp: unfold split: option.splits)
        from send_file_contents_Some [OF b] have
          f2: "data_file w2 = data_file w1" "same_connection w1 w2" and
          o2: "if r2 = 0 then sock_out w2 = sock_out w1 @ contents (data_file w1) \<and>
                        syslog_out w2 = syslog_out w1
               else r2 = - 1 \<and>
                 (\<exists>m \<in> echo_errors. syslog_out w2 = syslog_out w1 @ [(LOG_ERR, m)])"
          by simp_all
        have c2: "same_connection w w2" using f1(2) f2(2) by (rule same_connection_trans)
        show ?thesis
        proof (cases "r2 = 0")
          case False
          with "1.prems"(1) True nl a r1 b have r: "start' = i + 1" "w' = w2"
            by (simp_all add: unfold)
          from False o2 l1 have "\<exists>m \<in> append_errors \<union> echo_errors.
              syslog_out w2 = syslog_out w @ [(LOG_ERR, m)]" by auto
          with r c2 k \<open>start \<le> i\<close> show ?thesis by (simp add: packets_outcome_def)
        next
          case r2: True
          with o2 have s2: "sock_out w2 = sock_out w1 @ contents (data_file w1)"
            and l2: "syslog_out w2 = syslog_out w1" by simp_all
          from "1.prems"(1) True nl a r1 b r2
          have rc: "process_packets buf n (i + 1) (i + 1) w2 = Some (start', w')"
            by (simp add: unfold)
          have r1': "\<not> r1 \<noteq> 0" "\<not> r2 \<noteq> 0" using r1 r2 by simp_all
          have "Suc i \<le> n" using True by simp
          with "1.IH"(1) [OF True nl a refl r1'(1) b refl r1'(2) rc n]
          have ih: "i + 1 \<le> start'" "packets_outcome ?rest (start' - (i + 1)) w2 w'"
            by simp_all
          from ih(2) have c3: "same_connection w2 w'" and k3: "start' - (i + 1) \<le> length ?rest"
            by (simp_all add: packets_outcome_def)
          have c: "same_connection w w'" using c2 c3 by (rule same_connection_trans)
          have kk: "start' - start \<le> length ?seg" using k3 ih(1) \<open>start \<le> i\<close> il by simp
          from ih(2) consider
            (quiet) "syslog_out w' = syslog_out w2"
              "start' - (i + 1) = length (concat (records ?rest))"
              "contents (data_file w') = contents (data_file w2) @ concat (records ?rest)"
              "sock_out w' = sock_out w2 @
                 concat (responses (contents (data_file w2)) (records ?rest))"
          | (err) m where "m \<in> append_errors \<union> echo_errors"
              "syslog_out w' = syslog_out w2 @ [(LOG_ERR, m)]"
            unfolding packets_outcome_def by blast
          then show ?thesis
          proof cases
            case err
            with l1 l2 have "\<exists>m \<in> append_errors \<union> echo_errors.
              syslog_out w' = syslog_out w @ [(LOG_ERR, m)]" by auto
            with c kk ih(1) \<open>start \<le> i\<close> show ?thesis by (simp add: packets_outcome_def)
          next
            case quiet
            have "syslog_out w' = syslog_out w" using quiet(1) l1 l2 by simp
            moreover have "start' - start = length (concat (records ?seg))"
              using quiet(2) recs lrec ih(1) \<open>start \<le> i\<close> by simp
            moreover have "contents (data_file w') =
                contents (data_file w) @ concat (records ?seg)"
              using quiet(3) f2(1) d1 recs by (simp add: contents_def)
            moreover have "sock_out w' =
                sock_out w @ concat (responses (contents (data_file w)) (records ?seg))"
              using quiet(4) s2 f1(1) f2(1) d1 recs by (simp add: contents_def)
            ultimately show ?thesis
              using c kk ih(1) \<open>start \<le> i\<close> by (simp add: packets_outcome_def)
          qed
        qed
      qed
    qed
  qed
qed

lemma recv_call:
  assumes "recv count w = Some (x, w')"
  shows "data_file w' = data_file w \<and> sock_out w' = sock_out w \<and>
         syslog_out w' = syslog_out w \<and> clients w' = clients w \<and>
         (case x of
            Inl e \<Rightarrow> sock_in w' = sock_in w \<and> pending w' = pending w
          | Inr chunk \<Rightarrow> sock_in w' = sock_in w @ chunk)"
  using assms
  by (auto simp: recv_def Let_def same_connection_def split: option.splits reply.splits
           dest!: sys_call)

lemma remove_processed_Some:
  assumes "remove_processed buf n start w = Some ((pb, ps), w')"
    and "n = length buf" "start \<le> n"
  shows "ps = n - start \<and> ps \<le> length (contents pb) \<and>
         take ps (contents pb) = drop start buf \<and>
         data_file w' = data_file w \<and> sock_out w' = sock_out w \<and>
         syslog_out w' = syslog_out w \<and> same_connection w w'"
proof (cases "0 < start")
  case False
  with assms show ?thesis by (auto simp: remove_processed_def contents_def)
next
  case True
  let ?remaining = "n - start"
  let ?moved = "take ?remaining (drop start buf) @ drop ?remaining buf"
  have m: "take ?remaining (drop start buf) = drop start buf" using assms(2) by simp
  have lm: "length (drop start buf) = ?remaining" using assms(2) by simp
  from assms True obtain r w1 where s: "sys Realloc w = Some (r, w1)"
    by (auto simp: remove_processed_def Let_def split: option.splits)
  note f = sys_call [OF s]
  show ?thesis
  proof (cases r)
    case (Ret k)
    with assms True s have "pb = Some (take ?remaining ?moved)" "ps = ?remaining" "w' = w1"
      by (simp_all add: remove_processed_def Let_def)
    with f m lm show ?thesis by (simp add: contents_def)
  next
    case (Fail e)
    with assms True s have r: "pb = (if ?remaining = 0 then None else Some ?moved)"
      "ps = ?remaining" "w' = w1"
      by (auto simp: remove_processed_def Let_def)
    show ?thesis
    proof (cases "?remaining = 0")
      case True
      with r f assms(2,3) show ?thesis by (simp add: contents_def)
    next
      case False
      with r f m lm show ?thesis by (simp add: contents_def)
    qed
  qed
qed

lemma undisturbed_split:
  assumes "later w w1" "later w1 w'" "undisturbed w w'"
  shows "undisturbed w w1 \<and> undisturbed w1 w'"
proof -
  from assms(1) obtain l1 where l1: "syslog_out w1 = syslog_out w @ l1"
    by (auto simp: later_def)
  from assms(2) obtain l2 where l2: "syslog_out w' = syslog_out w1 @ l2"
    by (auto simp: later_def)
  from assms(3) l1 l2 show ?thesis
    by (auto simp: undisturbed_def)
qed

lemma undisturbed_error:
  "syslog_out w' = syslog_out w @ [(LOG_ERR, m)] \<Longrightarrow> m \<in> store_errors \<Longrightarrow>
     \<not> undisturbed w w'"
  by (auto simp: undisturbed_def)

lemma handler_inv_frame:
  assumes "handler_inv in0 store0 out0 pb ps w"
    and "sock_in w' = sock_in w" "data_file w' = data_file w" "sock_out w' = sock_out w"
  shows "handler_inv in0 store0 out0 pb ps w'"
  using assms by (simp add: handler_inv_def)

lemma handle_iteration_inv:
  assumes it: "handle_iteration pb ps w = Some fl"
    and inv: "handler_inv in0 store0 out0 pb ps w"
    and und: "undisturbed w (snd (snd (flow_state fl)))"
  shows "handler_inv in0 store0 out0 (fst (flow_state fl)) (fst (snd (flow_state fl)))
           (snd (snd (flow_state fl)))"
proof -
  from it obtain x w1 where r: "recv 1024 w = Some (x, w1)"
    by (auto simp: handle_iteration_def split: option.splits)
  from recv_call [OF r] have
    f1: "data_file w1 = data_file w" "sock_out w1 = sock_out w" "syslog_out w1 = syslog_out w"
    and x: "case x of Inl e \<Rightarrow> sock_in w1 = sock_in w \<and> pending w1 = pending w
            | Inr chunk \<Rightarrow> sock_in w1 = sock_in w @ chunk"
    by simp_all
  show ?thesis
  proof (cases x)
    case (Inl e)
    with x have i1: "sock_in w1 = sock_in w" by simp
    have "handler_inv in0 store0 out0 pb ps w1"
      using inv i1 f1(1,2) by (rule handler_inv_frame)
    then have "handler_inv in0 store0 out0 pb ps (syslog LOG_ERR ''recv() failed'' w1)"
      by (rule handler_inv_frame) simp_all
    with it r Inl \<open>handler_inv in0 store0 out0 pb ps w1\<close> show ?thesis
      by (auto simp: handle_iteration_def split: if_splits)
  next
    case (Inr chunk)
    with x have i1: "sock_in w1 = sock_in w @ chunk" by simp
    show ?thesis
    proof (cases "length chunk = 0")
      case True
      with i1 have "sock_in w1 = sock_in w" by simp
      with inv have "handler_inv in0 store0 out0 pb ps w1"
        using f1(1,2) by (rule handler_inv_frame)
      with it r Inr True show ?thesis by (auto simp: handle_iteration_def)
    next
      case False
      with it r Inr obtain x2 w2 where re: "sys Realloc w1 = Some (x2, w2)"
        by (auto simp: handle_iteration_def split: option.splits)
      from sys_call [OF re] have
        f2: "syslog_out w2 = syslog_out w1" "data_file w2 = data_file w1"
          "sock_out w2 = sock_out w1" "same_connection w1 w2"
        by simp_all
      show ?thesis
      proof (cases x2)
        case (Fail e)
        let ?m = "''realloc() failed while growing packet buffer''"
        from it r Inr False re Fail have fl: "fl = Break (None, 0, syslog LOG_ERR ?m w2)"
          by (simp add: handle_iteration_def)
        have "syslog_out (syslog LOG_ERR ?m w2) = syslog_out w @ [(LOG_ERR, ?m)]"
          using f1(3) f2(1) by simp
        moreover have "?m \<in> store_errors" by (simp add: store_errors_def)
        ultimately have "\<not> undisturbed w (syslog LOG_ERR ?m w2)"
          by (rule undisturbed_error)
        with und fl show ?thesis by simp
      next
        case (Ret k)
        let ?buf = "take ps (contents pb) @ chunk"
        let ?size = "ps + length chunk"
        from it r Inr False re Ret obtain start w3 where
          pp: "process_packets ?buf ?size 0 0 w2 = Some (start, w3)"
          by (auto simp: handle_iteration_def Let_def split: option.splits)
        from it r Inr False re Ret pp obtain pb' ps' w4 where
          rp: "remove_processed ?buf ?size start w3 = Some ((pb', ps'), w4)"
          and fl: "fl = Continue (pb', ps', w4)"
          by (auto simp: handle_iteration_def Let_def split: option.splits)
        from inv obtain rx where
          rx: "sock_in w = in0 @ rx" "ps \<le> length (contents pb)"
            "take ps (contents pb) = unterminated rx"
            "contents (data_file w) = store0 @ concat (records rx)"
            "sock_out w = out0 @ concat (responses store0 (records rx))"
          unfolding handler_inv_def by blast
        have size: "?size = length ?buf" using rx(2) by simp
        from process_packets_Some [OF pp size] have
          po: "packets_outcome ?buf start w2 w3" by simp
        then have c3: "same_connection w2 w3" and st: "start \<le> length ?buf"
          by (simp_all add: packets_outcome_def)
        have st': "start \<le> ?size" using st size by simp
        have
          f4: "ps' = ?size - start" "ps' \<le> length (contents pb')"
            "take ps' (contents pb') = drop start ?buf"
            "data_file w4 = data_file w3" "sock_out w4 = sock_out w3"
            "syslog_out w4 = syslog_out w3" "same_connection w3 w4"
          using remove_processed_Some [OF rp size st'] by blast+
        from und fl have und4: "undisturbed w w4" by simp
        have quiet: "syslog_out w3 = syslog_out w2"
        proof (rule ccontr)
          assume "syslog_out w3 \<noteq> syslog_out w2"
          with po obtain m where m: "m \<in> append_errors \<union> echo_errors"
            "syslog_out w3 = syslog_out w2 @ [(LOG_ERR, m)]"
            unfolding packets_outcome_def by blast
          then have "syslog_out w4 = syslog_out w @ [(LOG_ERR, m)]" "m \<in> store_errors"
            using f4(6) f2(1) f1(3) by (simp_all add: store_errors_def)
          then have "\<not> undisturbed w w4" by (rule undisturbed_error)
          with und4 show False by simp
        qed
        with po have
          q: "start = length (concat (records ?buf))"
            "contents (data_file w3) = contents (data_file w2) @ concat (records ?buf)"
            "sock_out w3 =
               sock_out w2 @ concat (responses (contents (data_file w2)) (records ?buf))"
          unfolding packets_outcome_def by auto
        have "?buf = concat (records ?buf) @ unterminated ?buf" by (rule records_split)
        then have "drop start ?buf = unterminated ?buf"
          using q(1) by (metis append_eq_conv_conj)
        then have b4: "take ps' (contents pb') = unterminated ((rx @ chunk))"
          using f4(3) rx(3) unterminated_append [of rx chunk] by simp
        have recs: "records (rx @ chunk) = records rx @ records ?buf"
          using records_append [of rx chunk] rx(3) by simp
        have in4: "sock_in w4 = in0 @ (rx @ chunk)"
          using i1 rx(1) f2(4) c3 f4(7) by (simp add: same_connection_def)
        have d4: "contents (data_file w4) = store0 @ concat (records (rx @ chunk))"
          using f4(4) q(2) f2(2) f1(1) rx(4) recs by simp
        have o4: "sock_out w4 = out0 @ concat (responses store0 (records (rx @ chunk)))"
          using f4(5) q(3) f2(2,3) f1(1,2) rx(4,5) recs
          by (simp add: responses_append)
        have "handler_inv in0 store0 out0 pb' ps' w4"
          unfolding handler_inv_def using in4 f4(2) b4 d4 o4 by blast
        with fl show ?thesis by simp
      qed
    qed
  qed
qed

lemma handle_loop_inv:
  assumes "handle_loop pb ps w = Some (pb', ps', w')"
    and "handler_inv in0 store0 out0 pb ps w"
    and "undisturbed w w'"
  shows "handler_inv in0 store0 out0 pb' ps' w'"
  using assms
proof (induction pb ps w rule: handle_loop.induct)
  case (1 pb ps w)
  note unfold = handle_loop.simps [of pb ps w]
  show ?case
  proof (cases "exit_requested w")
    case True
    with "1.prems" show ?thesis by (simp add: unfold)
  next
    case False
    with "1.prems"(1) obtain fl where it: "handle_iteration pb ps w = Some fl"
      by (auto simp: unfold split: option.splits)
    have l1: "later w (snd (snd (flow_state fl)))"
      using it by (rule handle_iteration_later)
    show ?thesis
    proof (cases fl)
      case (Break st)
      with "1.prems"(1) False it have st: "st = (pb', ps', w')" by (simp add: unfold)
      with handle_iteration_inv [OF it "1.prems"(2)] Break "1.prems"(3) show ?thesis by simp
    next
      case (Continue st)
      obtain pb1 ps1 w1 where st: "st = (pb1, ps1, w1)" by (cases st)
      with "1.prems"(1) False it Continue have rec: "handle_loop pb1 ps1 w1 = Some (pb', ps', w')"
        by (simp add: unfold)
      have l2: "later w1 w'" using rec by (rule handle_loop_later)
      from l1 Continue st have l1': "later w w1" by simp
      from undisturbed_split [OF l1' l2 "1.prems"(3)] have
        u: "undisturbed w w1" "undisturbed w1 w'" by simp_all
      from handle_iteration_inv [OF it "1.prems"(2)] Continue st u(1)
      have "handler_inv in0 store0 out0 pb1 ps1 w1" by simp
      with "1.IH" [OF False it [unfolded Continue st] refl refl refl rec] u(2)
      show ?thesis by simp
    qed
  qed
qed

lemma handler_inv_start:
  "handler_inv (sock_in w) (contents (data_file w)) (sock_out w) None 0 w"
  unfolding handler_inv_def
  by (rule exI [of _ "[]"]) (simp add: records_def unterminated_def contents_def)

lemma handle_client_inv:
  assumes "handle_client w = Some w'" and "undisturbed w w'"
  shows "\<exists>rx. sock_in w' = sock_in w @ rx \<and>
           contents (data_file w') = contents (data_file w) @ concat (records rx) \<and>
           sock_out w' =
             sock_out w @ concat (responses (contents (data_file w)) (records rx))"
proof -
  from assms(1) obtain pb ps where l: "handle_loop None 0 w = Some (pb, ps, w')"
    by (auto simp: handle_client_def split: option.splits)
  from handle_loop_inv [OF l handler_inv_start assms(2)]
  show ?thesis unfolding handler_inv_def by blast
qed

subsection \<open>The calls of one turn of the handler\<close>

lemma no_recv_refl [simp]: "no_recv w w"
  by (simp add: no_recv_def)

lemma no_recv_trans: "no_recv w w1 \<Longrightarrow> no_recv w1 w2 \<Longrightarrow> no_recv w w2"
  by (auto simp: no_recv_def)

lemma no_recv_syslog: "no_recv w w' \<Longrightarrow> no_recv w (syslog p m w')"
  by (simp add: no_recv_def)

lemma no_recv_syslog_self [simp]: "no_recv w (syslog p m w)"
  by (rule no_recv_syslog) simp

lemma no_recv_update [simp]:
  "no_recv w (w'\<lparr>data_file := f\<rparr>) = no_recv w w'"
  "no_recv w (w'\<lparr>sock_out := bs\<rparr>) = no_recv w w'"
  by (simp_all add: no_recv_def)

lemma sys_no_recv: "sys c w = Some (r, w') \<Longrightarrow> c \<noteq> Recv \<Longrightarrow> no_recv w w'"
  by (auto simp: sys_Some deliver_eq no_recv_def)

lemma open_append_no_recv: "open_append w = Some (r, w') \<Longrightarrow> no_recv w w'"
  by (auto simp: open_append_def split: option.splits reply.splits dest!: sys_no_recv)

lemma write_fd_no_recv: "write_fd buf w = Some (r, w') \<Longrightarrow> no_recv w w'"
  by (auto simp: write_fd_def Let_def split: option.splits reply.splits dest!: sys_no_recv)

lemma open_read_no_recv: "open_read w = Some (r, w') \<Longrightarrow> no_recv w w'"
  by (auto simp: open_read_def split: option.splits reply.splits if_splits dest!: sys_no_recv)

lemma read_fd_no_recv: "read_fd off count w = Some (r, w') \<Longrightarrow> no_recv w w'"
  by (auto simp: read_fd_def split: option.splits reply.splits dest!: sys_no_recv)

lemma send_no_recv: "send buf w = Some (r, w') \<Longrightarrow> no_recv w w'"
  by (auto simp: send_def Let_def split: option.splits reply.splits dest!: sys_no_recv)

lemma write_loop_no_recv: "write_loop data written w = Some (r, w') \<Longrightarrow> no_recv w w'"
proof (induction data written w rule: write_loop.induct)
  case (1 data written w)
  note unfold = write_loop.simps [of data written w]
  show ?case
  proof (cases "written < length data")
    case False
    with "1.prems" show ?thesis by (simp add: unfold)
  next
    case True
    with "1.prems" obtain x w1 where s: "write_fd (drop written data) w = Some (x, w1)"
      by (auto simp: unfold split: option.splits)
    have l1: "no_recv w w1"
      using s by (rule write_fd_no_recv)
    have "no_recv w1 w'"
    proof (cases x)
      case (Inr n)
      with "1.prems" True s have "write_loop data (written + n) w1 = Some (r, w')"
        by (simp add: unfold)
      with "1.IH"(2) [OF True s [unfolded Inr]] show ?thesis by simp
    next
      case (Inl e)
      show ?thesis
      proof (cases "e = EINTR")
        case True
        with "1.prems" \<open>written < length data\<close> s Inl
        have "write_loop data written w1 = Some (r, w')"
          by (simp add: unfold)
        with "1.IH"(1) [OF \<open>written < length data\<close> s [unfolded Inl]] True Inl
        show ?thesis by auto
      next
        case False
        with "1.prems" True s Inl obtain x2 where
          "sys (Close Append_fd) (syslog LOG_ERR ''write failed'' w1) = Some (x2, w')"
          by (auto simp: unfold split: option.splits)
        then have "no_recv (syslog LOG_ERR ''write failed'' w1) w'"
          by (rule sys_no_recv) simp
        then show ?thesis
          by (rule no_recv_trans [OF no_recv_syslog [OF no_recv_refl]])
      qed
    qed
    with l1 show ?thesis by (rule no_recv_trans)
  qed
qed

lemma append_to_file_no_recv: "append_to_file data w = Some (r, w') \<Longrightarrow> no_recv w w'"
  unfolding append_to_file_def
  by (auto split: option.splits bool.splits reply.splits
           dest!: open_append_no_recv write_loop_no_recv sys_no_recv;
      (blast intro: no_recv_trans no_recv_syslog))

lemma send_loop_no_recv: "send_loop buf sent_total w = Some (r, w') \<Longrightarrow> no_recv w w'"
proof (induction buf sent_total w rule: send_loop.induct)
  case (1 buf sent_total w)
  note unfold = send_loop.simps [of buf sent_total w]
  show ?case
  proof (cases "sent_total < length buf")
    case False
    with "1.prems" show ?thesis by (simp add: unfold)
  next
    case True
    with "1.prems" obtain x w1 where s: "send (drop sent_total buf) w = Some (x, w1)"
      by (auto simp: unfold split: option.splits)
    have l1: "no_recv w w1"
      using s by (rule send_no_recv)
    show ?thesis
    proof (cases x)
      case (Inr n)
      with "1.prems" True s have "send_loop buf (sent_total + n) w1 = Some (r, w')"
        by (simp add: unfold)
      with "1.IH"(2) [OF True s [unfolded Inr]] have "no_recv w1 w'" by simp
      with l1 show ?thesis by (rule no_recv_trans)
    next
      case (Inl e)
      show ?thesis
      proof (cases "e = EINTR")
        case True
        with "1.prems" \<open>sent_total < length buf\<close> s Inl
        have "send_loop buf sent_total w1 = Some (r, w')"
          by (simp add: unfold)
        with "1.IH"(1) [OF \<open>sent_total < length buf\<close> s [unfolded Inl]] True Inl
        have "no_recv w1 w'" by auto
        with l1 show ?thesis by (rule no_recv_trans)
      next
        case False
        with "1.prems" True s Inl obtain x2 where
          "sys (Close Read_fd) (syslog LOG_ERR ''send() failed'' w1) = Some (x2, w')"
          by (auto simp: unfold split: option.splits)
        then have "no_recv (syslog LOG_ERR ''send() failed'' w1) w'"
          by (rule sys_no_recv) simp
        moreover have "no_recv w (syslog LOG_ERR ''send() failed'' w1)"
          using l1 by (rule no_recv_syslog)
        ultimately show ?thesis by (rule no_recv_trans [rotated])
      qed
    qed
  qed
qed

lemma read_loop_no_recv: "read_loop off w = Some (r, w') \<Longrightarrow> no_recv w w'"
proof (induction off w rule: read_loop.induct)
  case (1 off w)
  note unfold = read_loop.simps [of off w]
  from "1.prems" obtain x w1 where s: "read_fd off 1024 w = Some (x, w1)"
    by (auto simp: unfold split: option.splits)
  have l1: "no_recv w w1"
    using s by (rule read_fd_no_recv)
  have "no_recv w1 w'"
  proof (cases x)
    case (Inl e)
    with "1.prems" s obtain x2 where
      "sys (Close Read_fd) (syslog LOG_ERR ''read failed'' w1) = Some (x2, w')"
      by (auto simp: unfold split: option.splits)
    then have "no_recv (syslog LOG_ERR ''read failed'' w1) w'"
      by (rule sys_no_recv) simp
    then show ?thesis
      by (rule no_recv_trans [OF no_recv_syslog [OF no_recv_refl]])
  next
    case (Inr buf)
    show ?thesis
    proof (cases "0 < length buf")
      case False
      with "1.prems" s Inr show ?thesis by (simp add: unfold)
    next
      case True
      with "1.prems" s Inr obtain ok w2 where sl: "send_loop buf 0 w1 = Some (ok, w2)"
        by (auto simp: unfold split: option.splits)
      have l2: "no_recv w1 w2"
        using sl by (rule send_loop_no_recv)
      show ?thesis
      proof (cases ok)
        case False
        with "1.prems" s Inr True sl have "w' = w2" by (simp add: unfold)
        with l2 show ?thesis by simp
      next
        case ok: True
        with "1.prems" s Inr True sl
        have "read_loop (off + length buf) w2 = Some (r, w')"
          by (simp add: unfold)
        with "1.IH" [OF s refl Inr True sl refl] ok have "no_recv w2 w'"
          by simp
        with l2 show ?thesis by (rule no_recv_trans)
      qed
    qed
  qed
  with l1 show ?case by (rule no_recv_trans)
qed

lemma send_file_contents_no_recv: "send_file_contents w = Some (r, w') \<Longrightarrow> no_recv w w'"
  unfolding send_file_contents_def
  by (auto split: option.splits bool.splits reply.splits
           dest!: open_read_no_recv read_loop_no_recv sys_no_recv;
      (blast intro: no_recv_trans no_recv_syslog))

lemma process_packets_no_recv:
  "process_packets packet_buf packet_size i start w = Some (r, w') \<Longrightarrow> no_recv w w'"
proof (induction packet_buf packet_size i start w rule: process_packets.induct)
  case (1 packet_buf packet_size i start w)
  note unfold = process_packets.simps [of packet_buf packet_size i start w]
  show ?case
  proof (cases "i < packet_size")
    case False
    with "1.prems" show ?thesis by (simp add: unfold)
  next
    case True
    show ?thesis
    proof (cases "packet_buf ! i = newline")
      case False
      with "1.prems" True
      have "process_packets packet_buf packet_size (i + 1) start w = Some (r, w')"
        by (simp add: unfold)
      with "1.IH"(2) [OF True False] show ?thesis by simp
    next
      case nl: True
      with "1.prems" True obtain r1 w1 where
        a: "append_to_file (take (i - start + 1) (drop start packet_buf)) w = Some (r1, w1)"
        by (auto simp: unfold split: option.splits)
      have l1: "no_recv w w1"
        using a by (rule append_to_file_no_recv)
      show ?thesis
      proof (cases "r1 \<noteq> 0")
        case True
        with "1.prems" \<open>i < packet_size\<close> nl a have "w' = w1" by (simp add: unfold)
        with l1 show ?thesis by simp
      next
        case r1: False
        with "1.prems" True nl a obtain r2 w2 where
          b: "send_file_contents w1 = Some (r2, w2)"
          by (auto simp: unfold split: option.splits)
        have l2: "no_recv w1 w2"
          using b by (rule send_file_contents_no_recv)
        show ?thesis
        proof (cases "r2 \<noteq> 0")
          case True
          with "1.prems" \<open>i < packet_size\<close> nl a r1 b have "w' = w2" by (simp add: unfold)
          with l1 l2 show ?thesis by (auto intro: no_recv_trans)
        next
          case r2: False
          with "1.prems" True nl a r1 b
          have "process_packets packet_buf packet_size (i + 1) (i + 1) w2 = Some (r, w')"
            by (simp add: unfold)
          with "1.IH"(1) [OF True nl a refl r1 b refl r2] have "no_recv w2 w'" by simp
          with l1 l2 show ?thesis by (blast intro: no_recv_trans)
        qed
      qed
    qed
  qed
qed

lemma remove_processed_no_recv:
  "remove_processed packet_buf packet_size start w = Some (r, w') \<Longrightarrow> no_recv w w'"
  by (auto simp: remove_processed_def Let_def split: if_splits option.splits reply.splits
           dest!: sys_no_recv)

lemma handle_iteration_one_recv:
  assumes "handle_iteration packet_buf packet_size w = Some fl"
  shows "\<exists>x w1. recv 1024 w = Some (x, w1) \<and> no_recv w1 (snd (snd (flow_state fl)))"
proof -
  from assms obtain x w1 where r: "recv 1024 w = Some (x, w1)"
    by (auto simp: handle_iteration_def split: option.splits)
  have "no_recv w1 (snd (snd (flow_state fl)))"
  proof (cases x)
    case (Inl e)
    with assms r show ?thesis
      by (auto simp: handle_iteration_def split: if_splits intro: no_recv_syslog)
  next
    case (Inr chunk)
    show ?thesis
    proof (cases "length chunk = 0")
      case True
      with assms r Inr show ?thesis
        by (auto simp: handle_iteration_def)
    next
      case False
      with assms r Inr obtain x2 w2 where re: "sys Realloc w1 = Some (x2, w2)"
        by (auto simp: handle_iteration_def split: option.splits)
      have l2: "no_recv w1 w2"
        using re by (rule sys_no_recv) simp
      show ?thesis
      proof (cases x2)
        case (Fail e)
        with assms r Inr False re l2 show ?thesis
          by (auto simp: handle_iteration_def intro: no_recv_syslog)
      next
        case (Ret k)
        let ?buf = "take packet_size (contents packet_buf) @ chunk"
        let ?size = "packet_size + length chunk"
        from assms r Inr False re Ret obtain start w3 where
          pp: "process_packets ?buf ?size 0 0 w2 = Some (start, w3)"
          by (auto simp: handle_iteration_def Let_def split: option.splits)
        from assms r Inr False re Ret pp obtain pb ps w4 where
          rp: "remove_processed ?buf ?size start w3 = Some ((pb, ps), w4)"
          and fl: "fl = Continue (pb, ps, w4)"
          by (auto simp: handle_iteration_def Let_def split: option.splits)
        have "no_recv w2 w3" using pp by (rule process_packets_no_recv)
        moreover have "no_recv w3 w4" using rp by (rule remove_processed_no_recv)
        ultimately have "no_recv w1 w4" using l2 by (blast intro: no_recv_trans)
        with fl show ?thesis by simp
      qed
    qed
  qed
  with r show ?thesis by blast
qed

lemma recv_trace:
  "recv count w = Some (x, w') \<Longrightarrow> \<exists>r. trace w' = trace w @ [(Recv, r)]"
  by (auto simp: recv_def Let_def split: option.splits reply.splits dest!: sys_call)

lemma handle_iteration_trace:
  assumes "handle_iteration pb ps w = Some fl"
  shows "\<exists>r t. trace (snd (snd (flow_state fl))) = trace w @ (Recv, r) # t \<and>
           (\<forall>x \<in> set t. fst x \<noteq> Recv)"
proof -
  from handle_iteration_one_recv [OF assms] obtain x w1 where
    r: "recv 1024 w = Some (x, w1)" and n: "no_recv w1 (snd (snd (flow_state fl)))"
    by blast
  from recv_trace [OF r] obtain r1 where "trace w1 = trace w @ [(Recv, r1)]" by blast
  with n show ?thesis by (auto simp: no_recv_def)
qed

section \<open>The claims\<close>

subsection \<open>The store after a connection\<close>




subsection \<open>The response to a record\<close>




text \<open>
  The same over two connections of one process (scenario D of the specification): the
  first client sends \<open>a\<close>, the second sends \<open>b\<close> and is answered with both
  records; at shutdown the file is removed.
\<close>

lemma two_connections_run:
  "main (boot [''a'' @ [newline], ''b'' @ [newline]] two_connections) =
   Some (0,
     \<lparr>exit_requested = True, data_file = None, clients = [], pending = [],
      sock_in = ''b'' @ [newline], sock_out = ''a'' @ [newline] @ ''b'' @ [newline],
      syslog_out =
        [(LOG_INFO, ''Accepted connection from''),
         (LOG_INFO, ''Closed connection from''),
         (LOG_INFO, ''Accepted connection from''),
         (LOG_INFO, ''Closed connection from''),
         (LOG_INFO, ''Caught signal, exiting'')],
      script = [],
      trace =
        [(Sigaction 2, Ret 0), (Sigaction 15, Ret 0), (Socket, Ret 0),
         (Setsockopt, Ret 0), (Bind, Ret 0), (Listen, Ret 0),
         (Accept, Ret 4), (Recv, Ret 1024), (Realloc, Ret 1024),
         (Open_append, Ret 1024), (Write, Ret 1024),
         (Close Append_fd, Ret 1024), (Open_read, Ret 1024),
         (Read, Ret 1024), (Send, Ret 1024), (Read, Ret 1024),
         (Close Read_fd, Ret 1024), (Realloc, Ret 1024),
         (Recv, Ret 1024), (Close Client_fd, Ret 0), (Accept, Ret 5),
         (Recv, Ret 1024), (Realloc, Ret 1024), (Open_append, Ret 1024),
         (Write, Ret 1024), (Close Append_fd, Ret 1024),
         (Open_read, Ret 1024), (Read, Ret 1024), (Send, Ret 1024),
         (Read, Ret 1024), (Close Read_fd, Ret 1024),
         (Realloc, Ret 1024), (Recv, Ret 1024), (Close Client_fd, Ret 0),
         (Accept, Fail EINTR), (Close Server_fd, Ret 0),
         (Remove, Ret 0)]\<rparr>)"
  by code_simp

subsection \<open>A failed append or echo\<close>

text \<open>
  Claim C3. The claim says that a failed append or echo ends the connection. The
  code does not do that: the \<^verbatim>\<open>break\<close> of lines 176 and 182 leaves the \<^verbatim>\<open>for\<close> loop
  only. In this run the append of the first record fails; the handler goes on to
  call \<^verbatim>\<open>recv\<close> again, and stores and echoes the second record of the same chunk
  and the third.
\<close>

theorem append_failure_keeps_connection_run:
  "handle_client
     (connection None (''a'' @ [newline] @ ''b'' @ [newline] @ ''c'' @ [newline])
        append_fails_once) =
   Some \<lparr>exit_requested = False,
      data_file = Some (''b'' @ [newline] @ ''c'' @ [newline]),
      clients = [], pending = [],
      sock_in = ''a'' @ [newline] @ ''b'' @ [newline] @ ''c'' @ [newline],
      sock_out = ''b'' @ [newline] @ ''b'' @ [newline] @ ''c'' @ [newline],
      syslog_out = [(LOG_ERR, ''open failed'')],
      script = [],
      trace =
        [(Recv, Ret 4), (Realloc, Ret 0), (Open_append, Fail EOTHER),
         (Realloc, Ret 1024), (Recv, Ret 1024), (Realloc, Ret 1024),
         (Open_append, Ret 1024), (Write, Ret 1024),
         (Close Append_fd, Ret 1024), (Open_read, Ret 1024),
         (Read, Ret 1024), (Send, Ret 1024), (Read, Ret 1024),
         (Close Read_fd, Ret 1024), (Open_append, Ret 1024),
         (Write, Ret 1024), (Close Append_fd, Ret 1024),
         (Open_read, Ret 1024), (Read, Ret 1024), (Send, Ret 1024),
         (Read, Ret 1024), (Close Read_fd, Ret 1024), (Realloc, Ret 1024),
         (Recv, Ret 1024)]\<rparr>"
  by code_simp

text \<open>
  Claim C4. After the failed append of the same run, at the end of the first turn of
  the loop, the packet buffer holds the complete record \<open>b\<close>, while the bytes
  received so far end with a newline and have no unterminated rest. (On an
  undisturbed connection the buffer is the unterminated rest of the bytes received
  after every turn: this is part of \<open>handler_inv\<close>.)
\<close>

theorem buffer_keeps_complete_record_run:
  "map_option (\<lambda>fl. (fst (flow_state fl), fst (snd (flow_state fl))))
     (handle_iteration None 0
        (connection None (''a'' @ [newline] @ ''b'' @ [newline] @ ''c'' @ [newline])
           append_fails_once)) =
     Some (Some (''b'' @ [newline]), 2) \<and>
   map_option (\<lambda>fl. sock_in (snd (snd (flow_state fl))))
     (handle_iteration None 0
        (connection None (''a'' @ [newline] @ ''b'' @ [newline] @ ''c'' @ [newline])
           append_fails_once)) =
     Some (''a'' @ [newline] @ ''b'' @ [newline]) \<and>
   unterminated (''a'' @ [newline] @ ''b'' @ [newline]) = []"
  by code_simp

subsection \<open>Interrupted calls\<close>

text \<open>
  Claim C5 does not hold as it is stated. With \<^verbatim>\<open>exit_requested\<close> set, a \<^verbatim>\<open>send\<close>
  that fails with \<^verbatim>\<open>EINTR\<close> is called again and the whole file is sent: the loop
  does not unwind.
\<close>

theorem send_retried_during_shutdown_counterexample:
  "exit_requested
     ((connection (Some (''a'' @ [newline])) [] interrupted_send)\<lparr>exit_requested := True\<rparr>) \<and>
   map_option fst
     (send_file_contents
        ((connection (Some (''a'' @ [newline])) [] interrupted_send)\<lparr>exit_requested := True\<rparr>)) =
     Some 0 \<and>
   map_option (sock_out \<circ> snd)
     (send_file_contents
        ((connection (Some (''a'' @ [newline])) [] interrupted_send)\<lparr>exit_requested := True\<rparr>)) =
     Some (''a'' @ [newline]) \<and>
   map_option (trace \<circ> snd)
     (send_file_contents
        ((connection (Some (''a'' @ [newline])) [] interrupted_send)\<lparr>exit_requested := True\<rparr>)) =
     Some [(Open_read, Ret 3), (Read, Ret 9), (Send, Fail EINTR), (Send, Ret 9), (Read, Ret 9),
           (Close Read_fd, Ret 0)]"
  by code_simp

text \<open>
  Claim C5, amended. A \<^verbatim>\<open>write\<close> to the data file or a \<^verbatim>\<open>send\<close> to the client that
  fails with \<^verbatim>\<open>EINTR\<close> leaves its loop where it was, so the call is made again,
  whatever the value of \<^verbatim>\<open>exit_requested\<close>. After a \<^verbatim>\<open>recv\<close> or an \<^verbatim>\<open>accept\<close> that
  fails with \<^verbatim>\<open>EINTR\<close> the loop returns at once when \<^verbatim>\<open>exit_requested\<close> is set and
  goes round again when it is not. In all four cases nothing is logged and no
  data is touched. (An interrupted \<^verbatim>\<open>read\<close> of the data file is not covered.)
\<close>

theorem interrupted_calls:
  "(written < length data \<and> write_fd (drop written data) w = Some (Inl EINTR, w1) \<longrightarrow>
      write_loop data written w = write_loop data written w1 \<and>
      syslog_out w1 = syslog_out w \<and> data_file w1 = data_file w) \<and>
   (sent_total < length buf \<and> send (drop sent_total buf) w = Some (Inl EINTR, w1) \<longrightarrow>
      send_loop buf sent_total w = send_loop buf sent_total w1 \<and>
      syslog_out w1 = syslog_out w \<and> sock_out w1 = sock_out w) \<and>
   (\<not> exit_requested w \<and> recv 1024 w = Some (Inl EINTR, w1) \<longrightarrow>
      handle_loop packet_buf packet_size w =
        (if exit_requested w1 then Some (packet_buf, packet_size, w1)
         else handle_loop packet_buf packet_size w1) \<and>
      syslog_out w1 = syslog_out w \<and> sock_in w1 = sock_in w) \<and>
   (\<not> exit_requested w \<and> accept w = Some (Some EINTR, w1) \<longrightarrow>
      accept_loop w = (if exit_requested w1 then Some w1 else accept_loop w1) \<and>
      syslog_out w1 = syslog_out w)"
proof -
  have A: "written < length data \<and> write_fd (drop written data) w = Some (Inl EINTR, w1) \<longrightarrow>
      write_loop data written w = write_loop data written w1 \<and>
      syslog_out w1 = syslog_out w \<and> data_file w1 = data_file w"
  proof (intro impI, elim conjE)
    assume a: "written < length data" "write_fd (drop written data) w = Some (Inl EINTR, w1)"
    from write_fd_call [OF a(2)] have "syslog_out w1 = syslog_out w" "data_file w1 = data_file w"
      by auto
    with a show "write_loop data written w = write_loop data written w1 \<and>
      syslog_out w1 = syslog_out w \<and> data_file w1 = data_file w"
      by (simp add: write_loop.simps [of data written w])
  qed
  have B: "sent_total < length buf \<and> send (drop sent_total buf) w = Some (Inl EINTR, w1) \<longrightarrow>
      send_loop buf sent_total w = send_loop buf sent_total w1 \<and>
      syslog_out w1 = syslog_out w \<and> sock_out w1 = sock_out w"
  proof (intro impI, elim conjE)
    assume a: "sent_total < length buf" "send (drop sent_total buf) w = Some (Inl EINTR, w1)"
    from send_call [OF a(2)] have "syslog_out w1 = syslog_out w" "sock_out w1 = sock_out w"
      by auto
    with a show "send_loop buf sent_total w = send_loop buf sent_total w1 \<and>
      syslog_out w1 = syslog_out w \<and> sock_out w1 = sock_out w"
      by (simp add: send_loop.simps [of buf sent_total w])
  qed
  have C: "\<not> exit_requested w \<and> recv 1024 w = Some (Inl EINTR, w1) \<longrightarrow>
      handle_loop packet_buf packet_size w =
        (if exit_requested w1 then Some (packet_buf, packet_size, w1)
         else handle_loop packet_buf packet_size w1) \<and>
      syslog_out w1 = syslog_out w \<and> sock_in w1 = sock_in w"
  proof (intro impI, elim conjE)
    assume a: "\<not> exit_requested w" "recv 1024 w = Some (Inl EINTR, w1)"
    from recv_call [OF a(2)] have "syslog_out w1 = syslog_out w" "sock_in w1 = sock_in w"
      by auto
    with a show "handle_loop packet_buf packet_size w =
        (if exit_requested w1 then Some (packet_buf, packet_size, w1)
         else handle_loop packet_buf packet_size w1) \<and>
      syslog_out w1 = syslog_out w \<and> sock_in w1 = sock_in w"
      by (simp add: handle_loop.simps [of packet_buf packet_size w] handle_iteration_def)
  qed
  have D: "\<not> exit_requested w \<and> accept w = Some (Some EINTR, w1) \<longrightarrow>
      accept_loop w = (if exit_requested w1 then Some w1 else accept_loop w1) \<and>
      syslog_out w1 = syslog_out w"
  proof (intro impI, elim conjE)
    assume a: "\<not> exit_requested w" "accept w = Some (Some EINTR, w1)"
    then have "syslog_out w1 = syslog_out w"
      by (auto simp: accept_def split: option.splits reply.splits list.splits dest!: sys_call)
    with a show "accept_loop w = (if exit_requested w1 then Some w1 else accept_loop w1) \<and>
      syslog_out w1 = syslog_out w"
      by (simp add: accept_loop.simps [of w])
  qed
  show ?thesis by (rule conjI [OF A conjI [OF B conjI [OF C D]]])
qed

text \<open>
  Runs of it: an interrupted \<^verbatim>\<open>write\<close>, a \<^verbatim>\<open>send\<close> interrupted by \<^verbatim>\<open>SIGINT\<close>, a
  \<^verbatim>\<open>recv\<close> interrupted with and without a shutdown signal, and an \<^verbatim>\<open>accept\<close>
  interrupted by \<^verbatim>\<open>SIGTERM\<close>.
\<close>

theorem interrupted_calls_witness:
  "write_loop ''a'' 0 (connection (Some []) [] [([], Fail EINTR), ([], Ret 1)]) =
     write_loop ''a'' 0 (interrupted [] Write (connection (Some []) [] [([], Fail EINTR), ([], Ret 1)])) \<and>
   send_loop ''a'' 0 (connection (Some ''a'') [] [([SIGINT], Fail EINTR), ([], Ret 1)]) =
     send_loop ''a'' 0
       (interrupted [SIGINT] Send (connection (Some ''a'') [] [([SIGINT], Fail EINTR), ([], Ret 1)])) \<and>
   handle_loop None 0 (connection None ''a'' [([SIGINT], Fail EINTR)]) =
     Some (None, 0, interrupted [SIGINT] Recv (connection None ''a'' [([SIGINT], Fail EINTR)])) \<and>
   handle_loop None 0 (connection None [] [([], Fail EINTR), ([], Ret 0)]) =
     handle_loop None 0 (interrupted [] Recv (connection None [] [([], Fail EINTR), ([], Ret 0)])) \<and>
   accept_loop (boot [] [([SIGTERM], Fail EINTR)]) =
     Some (interrupted [SIGTERM] Accept (boot [] [([SIGTERM], Fail EINTR)]))"
proof -
  let ?a = "connection (Some []) [] [([], Fail EINTR), ([], Ret 1)]"
  let ?b = "connection (Some ''a'') [] [([SIGINT], Fail EINTR), ([], Ret 1)]"
  let ?c = "connection None ''a'' [([SIGINT], Fail EINTR)]"
  let ?d = "connection None [] [([], Fail EINTR), ([], Ret 0)]"
  let ?e = "boot [] [([SIGTERM], Fail EINTR)]"
  have a: "(0::nat) < length ''a''" "write_fd (drop 0 ''a'') ?a = Some (Inl EINTR, interrupted [] Write ?a)"
    by (simp_all add: write_fd_def sys_def interrupted_def connection_def)
  have b: "send (drop 0 ''a'') ?b = Some (Inl EINTR, interrupted [SIGINT] Send ?b)"
    by (simp add: send_def sys_def interrupted_def connection_def)
  have c: "\<not> exit_requested ?c" "recv 1024 ?c = Some (Inl EINTR, interrupted [SIGINT] Recv ?c)"
    "exit_requested (interrupted [SIGINT] Recv ?c)"
    by (simp_all add: recv_def sys_def interrupted_def connection_def deliver_eq
          shutdown_signal_def SIGINT_def)
  have d: "\<not> exit_requested ?d" "recv 1024 ?d = Some (Inl EINTR, interrupted [] Recv ?d)"
    "\<not> exit_requested (interrupted [] Recv ?d)"
    by (simp_all add: recv_def sys_def interrupted_def connection_def deliver_eq
          shutdown_signal_def)
  have e: "\<not> exit_requested ?e" "accept ?e = Some (Some EINTR, interrupted [SIGTERM] Accept ?e)"
    "exit_requested (interrupted [SIGTERM] Accept ?e)"
    by (simp_all add: accept_def sys_def interrupted_def boot_def deliver_eq
          shutdown_signal_def SIGTERM_def)
  from interrupted_calls [of 0 "''a''" ?a "interrupted [] Write ?a"] a
  have 1: "write_loop ''a'' 0 ?a = write_loop ''a'' 0 (interrupted [] Write ?a)" by blast
  from interrupted_calls [of _ _ ?b "interrupted [SIGINT] Send ?b" 0 "''a''"] a(1) b
  have 2: "send_loop ''a'' 0 ?b = send_loop ''a'' 0 (interrupted [SIGINT] Send ?b)" by blast
  from interrupted_calls [of _ _ ?c "interrupted [SIGINT] Recv ?c" _ _ None 0] c
  have 3: "handle_loop None 0 ?c = Some (None, 0, interrupted [SIGINT] Recv ?c)" by simp
  from interrupted_calls [of _ _ ?d "interrupted [] Recv ?d" _ _ None 0] d
  have 4: "handle_loop None 0 ?d = handle_loop None 0 (interrupted [] Recv ?d)" by simp
  from interrupted_calls [of _ _ ?e "interrupted [SIGTERM] Accept ?e"] e
  have 5: "accept_loop ?e = Some (interrupted [SIGTERM] Accept ?e)" by simp
  from 1 2 3 4 5 show ?thesis by blast
qed

subsection \<open>Appending to the store\<close>

text \<open>
  Claim C6 does not hold as it is stated. It lets \<^verbatim>\<open>append_to_file\<close> return an
  error only after a failure that is not an interruption. Here the file is opened,
  the byte is written, and the \<^verbatim>\<open>close\<close> fails with \<^verbatim>\<open>EINTR\<close>: the function
  returns \<open>-1\<close>, though no call failed for another reason and the byte is in the
  file.
\<close>

theorem append_to_file_interrupted_close_counterexample:
  "map_option fst (append_to_file ''a'' (connection None [] interrupted_close)) = Some (- 1) \<and>
   map_option (trace \<circ> snd) (append_to_file ''a'' (connection None [] interrupted_close)) =
     Some [(Open_append, Ret 3), (Write, Ret 1), (Close Append_fd, Fail EINTR)] \<and>
   map_option (data_file \<circ> snd) (append_to_file ''a'' (connection None [] interrupted_close)) =
     Some (Some ''a'')"
  by code_simp

text \<open>
  Claim C6, amended. \<^verbatim>\<open>append_to_file\<close> returns 0 or -1. It returns -1 exactly when
  \<^verbatim>\<open>open\<close> failed (for any reason), or a \<^verbatim>\<open>write\<close> failed for a reason other than
  \<^verbatim>\<open>EINTR\<close>, or \<^verbatim>\<open>close\<close> failed (for any reason, \<^verbatim>\<open>EINTR\<close> included). When it
  returns 0 it has opened the file, made only writes that succeeded or were
  interrupted, and closed the file, and the file holds its earlier content followed
  by the whole span. It does return 0 when the environment answers the next
  \<open>length data + 2\<close> calls with successes that move at least one byte.
\<close>

theorem append_to_file_outcome:
  "(append_to_file data w = Some (r, w') \<longrightarrow>
      (r = 0 \<or> r = - 1) \<and>
      (\<exists>t. trace w' = trace w @ t \<and> (r = - 1 \<longleftrightarrow> append_failure t) \<and>
         (r = 0 \<longrightarrow>
            append_success t \<and> data_file w' = Some (contents (data_file w) @ data)))) \<and>
   (length data + 2 \<le> length (script w) \<and>
    (\<forall>e \<in> set (take (length data + 2) (script w)). moves (snd e)) \<longrightarrow>
      (\<exists>w'. append_to_file data w = Some (0, w')))"
proof -
  have A: "append_to_file data w = Some (r, w') \<longrightarrow>
      (r = 0 \<or> r = - 1) \<and>
      (\<exists>t. trace w' = trace w @ t \<and> (r = - 1 \<longleftrightarrow> append_failure t) \<and>
         (r = 0 \<longrightarrow>
            append_success t \<and> data_file w' = Some (contents (data_file w) @ data)))"
  proof
    assume "append_to_file data w = Some (r, w')"
    from append_to_file_Some [OF this] obtain t where
      t: "trace w' = trace w @ t" and
      o: "if r = 0 then
               append_success t \<and> data_file w' = Some (contents (data_file w) @ data) \<and>
               syslog_out w' = syslog_out w
          else
               r = - 1 \<and> append_failure t \<and>
               (\<exists>m \<in> append_errors. syslog_out w' = syslog_out w @ [(LOG_ERR, m)])"
      by blast
    show "(r = 0 \<or> r = - 1) \<and>
      (\<exists>t. trace w' = trace w @ t \<and> (r = - 1 \<longleftrightarrow> append_failure t) \<and>
         (r = 0 \<longrightarrow>
            append_success t \<and> data_file w' = Some (contents (data_file w) @ data)))"
    proof (cases "r = 0")
      case True
      with o have "append_success t" "data_file w' = Some (contents (data_file w) @ data)"
        by simp_all
      with True t append_success_no_failure [of t] show ?thesis by auto
    next
      case False
      with o have "r = - 1" "append_failure t" by simp_all
      with t show ?thesis by auto
    qed
  qed
  have B: "length data + 2 \<le> length (script w) \<and>
    (\<forall>e \<in> set (take (length data + 2) (script w)). moves (snd e)) \<longrightarrow>
      (\<exists>w'. append_to_file data w = Some (0, w'))"
    using append_to_file_returns [of data w] by blast
  show ?thesis by (rule conjI [OF A B])
qed

text \<open>
  Runs of it: three bytes appended through two interrupted writes and a short one,
  and three bytes appended one at a time.
\<close>

theorem append_to_file_outcome_witness:
  "(\<exists>w' t. append_to_file (''ab'' @ [newline]) (connection (Some ''x'') [] interrupted_writes) =
        Some (0, w') \<and>
      trace w' = t \<and> \<not> append_failure t \<and> append_success t \<and>
      data_file w' = Some (''xab'' @ [newline])) \<and>
   (\<exists>w'. append_to_file (''ab'' @ [newline])
        (connection None [] (replicate 5 ([], Ret 1))) = Some (0, w'))"
proof -
  let ?w = "connection (Some ''x'') [] interrupted_writes"
  let ?w' = "\<lparr>exit_requested = True, data_file = Some (''xab'' @ [newline]), clients = [],
         pending = [], sock_in = [], sock_out = [], syslog_out = [],
         script = [],
         trace =
           [(Open_append, Ret 3), (Write, Fail EINTR), (Write, Ret 1),
            (Write, Fail EINTR), (Write, Ret 7),
            (Close Append_fd, Ret 0)]\<rparr>"
  let ?v = "connection None [] (replicate 5 ([], Ret 1))"
  have a: "append_to_file (''ab'' @ [newline]) ?w = Some (0, ?w')"
    by code_simp
  from append_to_file_outcome [of "''ab'' @ [newline]" ?w 0 ?w'] a
  have "\<exists>t. trace ?w' = trace ?w @ t \<and> ((0::int) = - 1 \<longleftrightarrow> append_failure t) \<and>
      append_success t \<and> data_file ?w' = Some (contents (data_file ?w) @ ''ab'' @ [newline])"
    by blast
  then have 1: "\<exists>t. trace ?w' = t \<and> \<not> append_failure t \<and> append_success t \<and>
      data_file ?w' = Some (''xab'' @ [newline])"
    by (simp add: connection_def contents_def)
  have "length (''ab'' @ [newline]) + 2 \<le> length (script ?v)"
    "\<forall>e \<in> set (take (length (''ab'' @ [newline]) + 2) (script ?v)). moves (snd e)"
    by (simp_all add: connection_def)
  with append_to_file_outcome [of "''ab'' @ [newline]" ?v 0 ?w']
  have 2: "\<exists>w'. append_to_file (''ab'' @ [newline]) ?v = Some (0, w')"
    by blast
  from a 1 2 show ?thesis by blast
qed

subsection \<open>Leaving the process\<close>



subsection \<open>The shutdown flag\<close>



subsection \<open>Failure of the buffer allocation\<close>

text \<open>
  Claim C9. When \<^verbatim>\<open>recv\<close> has returned a chunk and the \<^verbatim>\<open>realloc\<close> that should make
  room for it fails, the loop of \<^verbatim>\<open>handle_client\<close> ends at once: the buffer is
  released (\<^verbatim>\<open>packet_buf\<close> is \<^verbatim>\<open>NULL\<close>, \<^verbatim>\<open>packet_size\<close> is 0), whatever bytes it held
  and the whole chunk are dropped, the data file and the bytes sent to the client
  are what they were before the chunk arrived, and the only calls made are that
  \<^verbatim>\<open>recv\<close> and that \<^verbatim>\<open>realloc\<close>.
\<close>

theorem realloc_failure_closes:
  assumes "\<not> exit_requested w"
    and "recv 1024 w = Some (Inr chunk, w1)"
    and "chunk \<noteq> []"
    and "sys Realloc w1 = Some (Fail e, w2)"
  shows "\<exists>w'. handle_loop packet_buf packet_size w = Some (None, 0, w') \<and>
           data_file w' = data_file w \<and> sock_out w' = sock_out w \<and>
           sock_in w' = sock_in w @ chunk \<and>
           script w' = script w2 \<and>
           (\<exists>r. trace w' = trace w @ [(Recv, r), (Realloc, Fail e)])"
proof -
  let ?w' = "syslog LOG_ERR ''realloc() failed while growing packet buffer'' w2"
  have it: "handle_iteration packet_buf packet_size w = Some (Break (None, 0, ?w'))"
    using assms by (simp add: handle_iteration_def)
  have lp: "handle_loop packet_buf packet_size w = Some (None, 0, ?w')"
    using assms(1) it by (simp add: handle_loop.simps [of packet_buf packet_size w])
  from assms(2) obtain k w0 where r: "sys Recv w = Some (Ret k, w0)"
    and w1: "w1 = w0\<lparr>pending := drop (length chunk) (pending w0), sock_in := sock_in w0 @ chunk\<rparr>"
    by (auto simp: recv_def Let_def split: option.splits reply.splits)
  from r w1 assms(4) have
    "data_file ?w' = data_file w" "sock_out ?w' = sock_out w" "sock_in ?w' = sock_in w @ chunk"
    "script ?w' = script w2"
    "trace ?w' = trace w @ [(Recv, Ret k), (Realloc, Fail e)]"
    by (auto simp: sys_Some deliver_eq syslog_def)
  with lp show ?thesis by blast
qed

text \<open>
  A run of it: the buffer holds \<open>ab\<close>, the client sends \<open>c\<close> and a newline, and
  the allocation fails; the record \<open>abc\<close> never reaches the file.
\<close>

theorem realloc_failure_closes_witness:
  "\<exists>w'. handle_loop (Some ''ab'') 2
      (connection (Some ''x'') (''c'' @ [newline]) [([], Ret 9), ([], Fail EOTHER), ([], Ret 1)]) =
        Some (None, 0, w') \<and>
      data_file w' = Some ''x'' \<and> sock_out w' = [] \<and> script w' = [([], Ret 1)]"
proof -
  let ?w = "connection (Some ''x'') (''c'' @ [newline]) [([], Ret 9), ([], Fail EOTHER), ([], Ret 1)]"
  let ?w1 = "?w\<lparr>script := [([], Fail EOTHER), ([], Ret 1)], trace := [(Recv, Ret 9)], 
        pending := [], sock_in := ''c'' @ [newline]\<rparr>"
  let ?w2 = "?w1\<lparr>script := [([], Ret 1)], trace := [(Recv, Ret 9), (Realloc, Fail EOTHER)]\<rparr>"
  have a: "\<not> exit_requested ?w" by (simp add: connection_def)
  have b: "recv 1024 ?w = Some (Inr (''c'' @ [newline]), ?w1)"
    by (simp add: recv_def sys_def deliver_def connection_def Let_def)
  have c: "''c'' @ [newline] \<noteq> []" by simp
  have d: "sys Realloc ?w1 = Some (Fail EOTHER, ?w2)"
    by (simp add: sys_def deliver_def connection_def)
  from realloc_failure_closes [OF a b c d, of "Some ''ab''" 2]
  show ?thesis by (auto simp: connection_def)
qed

subsection \<open>Removal of the data file\<close>

text \<open>
  Claim C10. Whenever \<^verbatim>\<open>main\<close> returns, after a failed setup as well as after the
  accept loop, the last call it made is \<^verbatim>\<open>remove(DATA_FILE)\<close>. The outcome of that
  call does not reach the exit code, which is 0 when the setup succeeded and -1 when
  it failed, and the file is gone when the call succeeded, or was not there. The last
  entry of the log is a message about \<^verbatim>\<open>remove\<close> exactly when that call failed for a
  reason other than \<^verbatim>\<open>ENOENT\<close>, because what the log holds before it is known.
  After the accept loop these are the line about the signal and the message for the
  \<^verbatim>\<open>close\<close> of the listening socket, if that failed. After a failed setup in which
  the first \<open>k\<close> calls succeeded, the calls made are these \<open>k + 1\<close> calls and the
  \<^verbatim>\<open>close\<close> of the socket if it had been created, and the log holds the message of
  the failed call and the one for \<^verbatim>\<open>close\<close> if that failed; the file is left as it
  was when \<^verbatim>\<open>remove\<close> fails. And a failed setup does come to this end: \<^verbatim>\<open>main\<close>
  returns -1 as soon as the environment answers the eight calls it can make at most.
\<close>

theorem remove_on_every_exit:
  "(main w = Some (ret, w') \<longrightarrow>
      ret = (if setup_succeeds w then 0 else - 1) \<and>
      (\<exists>t l r.
         trace w' = trace w @ t @ [(Remove, r)] \<and>
         syslog_out w' = syslog_out w @ l @
           (if removal_error r then [(LOG_ERR, ''remove failed'')] else []) \<and>
         (succeeded r \<longrightarrow> data_file w' = None) \<and>
         (if setup_succeeds w then
            (\<exists>t0 l0 r1.
               t = t0 @ [(Close Server_fd, r1)] \<and>
               l = l0 @ [(LOG_INFO, ''Caught signal, exiting'')] @
                 (if succeeded r1 then [] else [(LOG_ERR, ''close(server_fd) failed'')]))
          else
            (\<exists>k r1.
               k < 6 \<and> k < length (script w) \<and>
               (\<forall>e \<in> set (take k (script w)). succeeded (snd e)) \<and>
               \<not> succeeded (snd (script w ! k)) \<and>
               t = zip (map fst setup_phase) (map snd (take (Suc k) (script w))) @
                 (if 3 \<le> k then [(Close Server_fd, r1)] else []) \<and>
               l = [(LOG_ERR, snd (setup_phase ! k))] @
                 (if 3 \<le> k \<and> \<not> succeeded r1 then [(LOG_ERR, ''close(server_fd) failed'')]
                  else []) \<and>
               (\<not> succeeded r \<longrightarrow> data_file w' = data_file w))))) \<and>
   (\<not> setup_succeeds v \<and> 8 \<le> length (script v) \<longrightarrow> (\<exists>v'. main v = Some (- 1, v')))"
proof -
  have A: "ret = (if setup_succeeds w then 0 else - 1) \<and>
      (\<exists>t l r.
         trace w' = trace w @ t @ [(Remove, r)] \<and>
         syslog_out w' = syslog_out w @ l @
           (if removal_error r then [(LOG_ERR, ''remove failed'')] else []) \<and>
         (succeeded r \<longrightarrow> data_file w' = None) \<and>
         (if setup_succeeds w then
            (\<exists>t0 l0 r1.
               t = t0 @ [(Close Server_fd, r1)] \<and>
               l = l0 @ [(LOG_INFO, ''Caught signal, exiting'')] @
                 (if succeeded r1 then [] else [(LOG_ERR, ''close(server_fd) failed'')]))
          else
            (\<exists>k r1.
               k < 6 \<and> k < length (script w) \<and>
               (\<forall>e \<in> set (take k (script w)). succeeded (snd e)) \<and>
               \<not> succeeded (snd (script w ! k)) \<and>
               t = zip (map fst setup_phase) (map snd (take (Suc k) (script w))) @
                 (if 3 \<le> k then [(Close Server_fd, r1)] else []) \<and>
               l = [(LOG_ERR, snd (setup_phase ! k))] @
                 (if 3 \<le> k \<and> \<not> succeeded r1 then [(LOG_ERR, ''close(server_fd) failed'')]
                  else []) \<and>
               (\<not> succeeded r \<longrightarrow> data_file w' = data_file w))))"
    if m: "main w = Some (ret, w')"
  proof (cases "setup_succeeds w")
    case True
    from main_outcome [OF m] True obtain t0 l0 r1 r2 where
      o: "ret = 0"
        "trace w' = trace w @ t0 @ [(Close Server_fd, r1), (Remove, r2)]"
        "syslog_out w' = syslog_out w @ l0 @ [(LOG_INFO, ''Caught signal, exiting'')] @
           (if succeeded r1 then [] else [(LOG_ERR, ''close(server_fd) failed'')]) @
           (if removal_error r2 then [(LOG_ERR, ''remove failed'')] else [])"
        "succeeded r2 \<longrightarrow> data_file w' = None"
      by blast
    let ?t = "t0 @ [(Close Server_fd, r1)]"
    let ?l = "l0 @ [(LOG_INFO, ''Caught signal, exiting'')] @
           (if succeeded r1 then [] else [(LOG_ERR, ''close(server_fd) failed'')])"
    have "trace w' = trace w @ ?t @ [(Remove, r2)]" using o(2) by simp
    moreover have "syslog_out w' = syslog_out w @ ?l @
        (if removal_error r2 then [(LOG_ERR, ''remove failed'')] else [])"
      using o(3) by simp
    ultimately show ?thesis using True o(1,4) by auto
  next
    case False
    from main_setup_failure [OF m False] obtain k r1 r where
      o: "ret = - 1" "k < 6" "k < length (script w)"
        "\<forall>e \<in> set (take k (script w)). succeeded (snd e)"
        "\<not> succeeded (snd (script w ! k))"
        "trace w' = trace w @ zip (map fst setup_phase) (map snd (take (Suc k) (script w))) @
          (if 3 \<le> k then [(Close Server_fd, r1)] else []) @ [(Remove, r)]"
        "syslog_out w' = syslog_out w @ [(LOG_ERR, snd (setup_phase ! k))] @
          (if 3 \<le> k \<and> \<not> succeeded r1 then [(LOG_ERR, ''close(server_fd) failed'')] else []) @
          (if removal_error r then [(LOG_ERR, ''remove failed'')] else [])"
        "data_file w' = (if succeeded r then None else data_file w)"
      unfolding setup_failure_def by blast
    let ?t = "zip (map fst setup_phase) (map snd (take (Suc k) (script w))) @
          (if 3 \<le> k then [(Close Server_fd, r1)] else [])"
    let ?l = "[(LOG_ERR, snd (setup_phase ! k))] @
          (if 3 \<le> k \<and> \<not> succeeded r1 then [(LOG_ERR, ''close(server_fd) failed'')] else [])"
    have "trace w' = trace w @ ?t @ [(Remove, r)]" using o(6) by simp
    moreover have "syslog_out w' = syslog_out w @ ?l @
        (if removal_error r then [(LOG_ERR, ''remove failed'')] else [])"
      using o(7) by simp
    moreover have "succeeded r \<longrightarrow> data_file w' = None"
      "\<not> succeeded r \<longrightarrow> data_file w' = data_file w"
      using o(8) by simp_all
    ultimately show ?thesis using False o(1-5) by auto
  qed
  have B: "\<not> setup_succeeds v \<and> 8 \<le> length (script v) \<longrightarrow> (\<exists>v'. main v = Some (- 1, v'))"
    using main_returns_after_failure by blast
  from A B show ?thesis by blast
qed

text \<open>
  A run of it: \<^verbatim>\<open>bind\<close> fails, the socket is closed, and there is no file to
  remove, which is not reported. And the run in which the first call of the setup
  fails returns.
\<close>

theorem remove_on_every_exit_witness:
  "\<exists>w'. main (boot [] bind_fails) = Some (- 1, w') \<and>
     \<not> setup_succeeds (boot [] bind_fails) \<and>
     trace w' =
       [(Sigaction 2, Ret 0), (Sigaction 15, Ret 0), (Socket, Ret 3), (Setsockopt, Ret 0),
        (Bind, Fail EOTHER), (Close Server_fd, Ret 0), (Remove, Fail ENOENT)] \<and>
     syslog_out w' = [(LOG_ERR, ''bind() failed'')] \<and>
     (\<exists>t l r.
        trace w' = t @ [(Remove, r)] \<and>
        syslog_out w' = l @ (if removal_error r then [(LOG_ERR, ''remove failed'')] else []) \<and>
        (\<exists>k r1.
           k < 6 \<and> \<not> succeeded (snd (bind_fails ! k)) \<and>
           t = zip (map fst setup_phase) (map snd (take (Suc k) bind_fails)) @
             (if 3 \<le> k then [(Close Server_fd, r1)] else []) \<and>
           l = [(LOG_ERR, snd (setup_phase ! k))] @
             (if 3 \<le> k \<and> \<not> succeeded r1 then [(LOG_ERR, ''close(server_fd) failed'')]
              else []))) \<and>
     (\<exists>v'. main (boot [] (sigaction_fails @ replicate 6 ([], Ret 0))) = Some (- 1, v'))"
proof -
  let ?w = "boot [] bind_fails"
  let ?v = "boot [] (sigaction_fails @ replicate 6 ([], Ret 0))"
  let ?w' = "\<lparr>exit_requested = False, data_file = None, clients = [], pending = [],
      sock_in = [], sock_out = [],
      syslog_out = [(LOG_ERR, ''bind() failed'')], script = [],
      trace =
        [(Sigaction 2, Ret 0), (Sigaction 15, Ret 0), (Socket, Ret 3), (Setsockopt, Ret 0),
         (Bind, Fail EOTHER), (Close Server_fd, Ret 0), (Remove, Fail ENOENT)]\<rparr>"
  have m: "main ?w = Some (- 1, ?w')"
    by code_simp
  have s: "\<not> setup_succeeds ?w" "\<not> setup_succeeds ?v" "8 \<le> length (script ?v)"
    by (simp_all add: setup_succeeds_def boot_def bind_fails_def sigaction_fails_def)
  have t: "trace ?w = []" "syslog_out ?w = []" "script ?w = bind_fails"
    by (simp_all add: boot_def)
  note inst = remove_on_every_exit [of ?w "- 1" ?w' ?v]
  from inst s have v: "\<exists>v'. main ?v = Some (- 1, v')"
    by blast
  from inst m have
    "\<exists>t l r.
         trace ?w' = trace ?w @ t @ [(Remove, r)] \<and>
         syslog_out ?w' = syslog_out ?w @ l @
           (if removal_error r then [(LOG_ERR, ''remove failed'')] else []) \<and>
         (succeeded r \<longrightarrow> data_file ?w' = None) \<and>
         (if setup_succeeds ?w then
            (\<exists>t0 l0 r1.
               t = t0 @ [(Close Server_fd, r1)] \<and>
               l = l0 @ [(LOG_INFO, ''Caught signal, exiting'')] @
                 (if succeeded r1 then [] else [(LOG_ERR, ''close(server_fd) failed'')]))
          else
            (\<exists>k r1.
               k < 6 \<and> k < length (script ?w) \<and>
               (\<forall>e \<in> set (take k (script ?w)). succeeded (snd e)) \<and>
               \<not> succeeded (snd (script ?w ! k)) \<and>
               t = zip (map fst setup_phase) (map snd (take (Suc k) (script ?w))) @
                 (if 3 \<le> k then [(Close Server_fd, r1)] else []) \<and>
               l = [(LOG_ERR, snd (setup_phase ! k))] @
                 (if 3 \<le> k \<and> \<not> succeeded r1 then [(LOG_ERR, ''close(server_fd) failed'')]
                  else []) \<and>
               (\<not> succeeded r \<longrightarrow> data_file ?w' = data_file ?w)))"
    by blast
  then have
    "\<exists>t l r.
        trace ?w' = t @ [(Remove, r)] \<and>
        syslog_out ?w' = l @ (if removal_error r then [(LOG_ERR, ''remove failed'')] else []) \<and>
        (\<exists>k r1.
           k < 6 \<and> \<not> succeeded (snd (bind_fails ! k)) \<and>
           t = zip (map fst setup_phase) (map snd (take (Suc k) bind_fails)) @
             (if 3 \<le> k then [(Close Server_fd, r1)] else []) \<and>
           l = [(LOG_ERR, snd (setup_phase ! k))] @
             (if 3 \<le> k \<and> \<not> succeeded r1 then [(LOG_ERR, ''close(server_fd) failed'')]
              else []))"
    unfolding t append_Nil if_not_P [OF s(1)] by blast
  moreover have "trace ?w' =
       [(Sigaction 2, Ret 0), (Sigaction 15, Ret 0), (Socket, Ret 3), (Setsockopt, Ret 0),
        (Bind, Fail EOTHER), (Close Server_fd, Ret 0), (Remove, Fail ENOENT)]"
    "syslog_out ?w' = [(LOG_ERR, ''bind() failed'')]"
    by simp_all
  ultimately show ?thesis using m s(1) v by blast
qed

end
